theory Spec2Isabelle
  imports Main "HOL-Library.Word" "HOL-Library.Monad_Syntax"
begin

section \<open>The sketch AVR\_ServoController\_PCA9685.ino as HOL functions\<close>

text \<open>
  The sketch keeps its whole state in a handful of global variables and mutates them from
  \<open>setup()\<close>, \<open>loop()\<close> and \<open>inputScan()\<close>. The model below threads that state through
  every function as a record. Everything the sketch reads from the outside (the clock
  \<open>millis()\<close>, the pins read by \<open>digitalRead\<close>) is a parameter of the function that reads
  it; everything it does to the outside (servo commands, \<open>delay\<close>) is appended to a trace.
  An array access outside the declared bounds is undefined behaviour in C; the model makes
  it the result \<open>None\<close>.
\<close>

subsection \<open>Constants\<close>

type_synonym u8 = "8 word"
type_synonym u32 = "32 word"

text \<open>\<open>#define INIT 0\<close>, \<open>MINPOSN 0\<close>, \<open>MAXPOSN 180\<close>, \<open>nservos 8\<close>. The preprocessor
  constants are of type \<open>int\<close> in C, and comparisons against them happen in \<open>int\<close>.\<close>

definition INIT :: bool where
  "INIT = False"

definition MINPOSN :: int where
  "MINPOSN = 0"

definition MAXPOSN :: int where
  "MAXPOSN = 180"

definition nservos :: nat where
  "nservos = 8"

subsection \<open>State\<close>

text \<open>What the sketch does to the outside world, in the order it does it.\<close>

datatype action =
    EaseTo nat u8      \<comment> \<open>\<open>servo[i].startEaseTo(angle)\<close>\<close>
  | WriteNow nat u8    \<comment> \<open>\<open>servo[i].write(angle)\<close>\<close>
  | Wait nat           \<comment> \<open>\<open>delay(ms)\<close>\<close>

text \<open>
  \<open>spos\<close> is \<open>uint8_t spos[3][nservos]\<close>: row 0 the first positions, row 1 the second
  positions, row 2 the current position (0 or 1) of each servo. \<open>lastchange\<close> is a C
  \<open>long\<close>; it only ever receives values of \<open>millis()\<close> and takes part in additions and
  comparisons that the AVR performs on 32 bits with wrap-around, so it is a 32-bit word.
  \<open>delayt\<close> is the local variable of \<open>loop()\<close>. \<open>eeprom\<close> is the byte-addressed
  EEPROM, \<open>trace\<close> the actions issued so far (oldest first).
\<close>

record controller =
  spos :: "u8 list list"
  activeServo :: u8
  activePos :: u8
  lastchange :: u32
  delayt :: u8
  eeprom :: "nat \<Rightarrow> u8"
  trace :: "action list"

subsection \<open>Array accesses and servo commands\<close>

text \<open>Reading and writing \<open>spos[r][c]\<close>, and indexing \<open>servo[i]\<close>: defined inside the
  declared bounds only.\<close>

definition rd :: "u8 list list \<Rightarrow> nat \<Rightarrow> nat \<Rightarrow> u8 option" where
  "rd t r c = (if r < 3 \<and> c < nservos then Some (t ! r ! c) else None)"

definition wr :: "u8 list list \<Rightarrow> nat \<Rightarrow> nat \<Rightarrow> u8 \<Rightarrow> u8 list list option" where
  "wr t r c v = (if r < 3 \<and> c < nservos then Some (t[r := (t ! r)[c := v]]) else None)"

definition startEaseTo :: "nat \<Rightarrow> u8 \<Rightarrow> controller \<Rightarrow> controller option" where
  "startEaseTo i a st =
     (if i < nservos then Some (st\<lparr>trace := trace st @ [EaseTo i a]\<rparr>) else None)"

definition servo_write :: "nat \<Rightarrow> u8 \<Rightarrow> controller \<Rightarrow> controller option" where
  "servo_write i a st =
     (if i < nservos then Some (st\<lparr>trace := trace st @ [WriteNow i a]\<rparr>) else None)"

definition delay :: "nat \<Rightarrow> controller \<Rightarrow> controller" where
  "delay ms st = st\<lparr>trace := trace st @ [Wait ms]\<rparr>"

text \<open>A \<open>for\<close> loop over channel indices whose body may hit undefined behaviour.\<close>

fun foreach :: "nat list \<Rightarrow> (nat \<Rightarrow> controller \<Rightarrow> controller option) \<Rightarrow> controller
    \<Rightarrow> controller option" where
  "foreach [] body st = Some st"
| "foreach (i # rest) body st =
     (case body i st of None \<Rightarrow> None | Some st' \<Rightarrow> foreach rest body st')"

text \<open>\<open>servo[i].startEaseTo( spos[spos[2][i]][i] )\<close>\<close>

definition ease_to_saved :: "nat \<Rightarrow> controller \<Rightarrow> controller option" where
  "ease_to_saved i st = do {
     p \<leftarrow> rd (spos st) 2 i;
     a \<leftarrow> rd (spos st) (unat p) i;
     startEaseTo i a st
   }"

subsection \<open>inputScan\<close>

text \<open>\<open>digitalRead\<close> returns the \<open>int\<close> 1 (HIGH) or 0 (LOW).\<close>

definition digitalRead :: "bool \<Rightarrow> int" where
  "digitalRead level = (if level then 1 else 0)"

text \<open>C's \<open>!x\<close> stored back into a \<open>uint8_t\<close>.\<close>

definition lnot :: "u8 \<Rightarrow> u8" where
  "lnot x = (if x = 0 then 1 else 0)"

text \<open>The body of the loop of \<open>inputScan\<close> for channel \<open>s\<close>; \<open>levels s\<close> is what
  \<open>digitalRead(controlPin[s])\<close> returns and \<open>clock s\<close> what \<open>millis()\<close> returns on
  line 98 when the loop is at channel \<open>s\<close>.\<close>

definition scan_channel :: "(nat \<Rightarrow> bool) \<Rightarrow> (nat \<Rightarrow> u32) \<Rightarrow> nat \<Rightarrow> controller
    \<Rightarrow> controller option" where
  "scan_channel levels clock s st = do {
     cur \<leftarrow> rd (spos st) 2 s;
     if digitalRead (levels s) \<noteq> uint cur then do {
       t \<leftarrow> wr (spos st) 2 s (lnot cur);
       p \<leftarrow> rd t 2 s;
       a \<leftarrow> rd t (unat p) s;
       st' \<leftarrow> startEaseTo s a (st\<lparr>spos := t\<rparr>);
       Some (st'\<lparr>lastchange := clock s\<rparr>)
     } else Some st
   }"

definition inputScan :: "(nat \<Rightarrow> bool) \<Rightarrow> (nat \<Rightarrow> u32) \<Rightarrow> controller \<Rightarrow> controller option" where
  "inputScan levels clock st = foreach [0..<nservos] (scan_channel levels clock) st"

subsection \<open>EEPROM and setup\<close>

text \<open>\<open>EEPROM.put(idx, spos)\<close> writes the \<open>3 * nservos\<close> bytes of the array in memory
  order (row after row) from address \<open>idx\<close>; \<open>EEPROM.get(idx, spos)\<close> reads them back.\<close>

definition EEPROM_put :: "nat \<Rightarrow> u8 list list \<Rightarrow> (nat \<Rightarrow> u8) \<Rightarrow> (nat \<Rightarrow> u8)" where
  "EEPROM_put idx t e =
     (\<lambda>a. if idx \<le> a \<and> a < idx + 3 * nservos
          then t ! ((a - idx) div nservos) ! ((a - idx) mod nservos) else e a)"

definition EEPROM_get :: "nat \<Rightarrow> (nat \<Rightarrow> u8) \<Rightarrow> u8 list list" where
  "EEPROM_get idx e = map (\<lambda>r. map (\<lambda>c. e (idx + r * nservos + c)) [0..<nservos]) [0..<3]"

text \<open>The state when \<open>setup()\<close> starts: C zero-initialises the globals; the EEPROM holds
  whatever it held at power-off.\<close>

definition power_on :: "(nat \<Rightarrow> u8) \<Rightarrow> controller" where
  "power_on e = \<lparr>spos = replicate 3 (replicate nservos 0), activeServo = 0, activePos = 0,
     lastchange = 0, delayt = 0, eeprom = e, trace = []\<rparr>"

text \<open>The body of the initialisation loop (lines 114 to 118).\<close>

definition init_channel :: "nat \<Rightarrow> controller \<Rightarrow> controller option" where
  "init_channel i st = do {
     t0 \<leftarrow> wr (spos st) 0 i (word_of_int ((MAXPOSN - MINPOSN) div 2 + 40));
     t1 \<leftarrow> wr t0 1 i (word_of_int ((MAXPOSN - MINPOSN) div 2 - 40));
     t2 \<leftarrow> wr t1 2 i 0;
     Some (st\<lparr>spos := t2\<rparr>)
   }"

text \<open>Lines 110 to 120: check the magic number, initialise the EEPROM if it is absent.\<close>

definition init_eeprom :: "controller \<Rightarrow> controller option" where
  "init_eeprom st =
     (let mn = eeprom st 0 in
      if mn \<noteq> 0xA5 \<or> INIT then do {
        st1 \<leftarrow> foreach [0..<nservos] init_channel (st\<lparr>eeprom := (eeprom st)(0 := 0xA5)\<rparr>);
        Some (st1\<lparr>eeprom := EEPROM_put 1 (spos st1) (eeprom st1)\<rparr>)
      } else Some st)"

text \<open>Line 123.\<close>

definition retrieve :: "controller \<Rightarrow> controller" where
  "retrieve st = st\<lparr>spos := EEPROM_get 1 (eeprom st)\<rparr>"

text \<open>\<open>setup()\<close>: wait two seconds, initialise, retrieve, then set the servos to
  their saved positions (lines 141 to 143). Serial output, attaching the servos, their
  easing type and speed, and the pin modes have no effect on the state.\<close>

definition setup_fn :: "controller \<Rightarrow> controller option" where
  "setup_fn st0 = do {
     let st = delay 2000 st0;
     st1 \<leftarrow> init_eeprom st;
     foreach [0..<nservos] ease_to_saved (retrieve st1)
   }"

subsection \<open>loop\<close>

text \<open>\<open>delayt -= 10; if(delayt<50) delayt=50;\<close> on a \<open>uint8_t\<close> (lines 165 and 166,
  and again 177 and 178).\<close>

definition next_delay :: "u8 \<Rightarrow> u8" where
  "next_delay d = (if d - 10 < 50 then 50 else d - 10)"

text \<open>One iteration of \<open>while(digitalRead(up)==0)\<close> (lines 158 to 167), entered at clock
  value \<open>now\<close>.\<close>

definition up_step :: "u32 \<Rightarrow> controller \<Rightarrow> controller option" where
  "up_step now st0 = do {
     let st = st0\<lparr>lastchange := now\<rparr>;
     let r = unat (activePos st); let c = unat (activeServo st);
     v \<leftarrow> rd (spos st) r c;
     t \<leftarrow> (if uint v < MAXPOSN then wr (spos st) r c (v + 1) else Some (spos st));
     a \<leftarrow> rd t r c;
     st1 \<leftarrow> servo_write c a (st\<lparr>spos := t\<rparr>);
     let st2 = st1\<lparr>delayt := next_delay (delayt st1)\<rparr>;
     Some (delay (unat (delayt st2)) st2)
   }"

text \<open>One iteration of \<open>while(digitalRead(down)==0)\<close> (lines 170 to 179).\<close>

definition down_step :: "u32 \<Rightarrow> controller \<Rightarrow> controller option" where
  "down_step now st0 = do {
     let st = st0\<lparr>lastchange := now\<rparr>;
     let r = unat (activePos st); let c = unat (activeServo st);
     v \<leftarrow> rd (spos st) r c;
     t \<leftarrow> (if uint v > MINPOSN then wr (spos st) r c (v - 1) else Some (spos st));
     a \<leftarrow> rd t r c;
     st1 \<leftarrow> servo_write c a (st\<lparr>spos := t\<rparr>);
     let st2 = st1\<lparr>delayt := next_delay (delayt st1)\<rparr>;
     Some (delay (unat (delayt st2)) st2)
   }"

text \<open>A \<open>while\<close> loop on a held button runs its body once for every poll that finds the
  button down. The list holds the clock values read in those iterations; the loop ends
  with the poll that finds the button released.\<close>

fun while_held :: "u32 list \<Rightarrow> (u32 \<Rightarrow> controller \<Rightarrow> controller option) \<Rightarrow> controller
    \<Rightarrow> controller option" where
  "while_held [] body st = Some st"
| "while_held (now # rest) body st =
     (case body now st of None \<Rightarrow> None | Some st' \<Rightarrow> while_held rest body st')"

text \<open>The body of the inner loop of the next-servo button (line 185).\<close>

definition hold_step :: "u32 \<Rightarrow> controller \<Rightarrow> controller option" where
  "hold_step now st =
     Some (if now - lastchange st > 2000 then st\<lparr>activeServo := word_of_nat nservos\<rparr> else st)"

text \<open>The next-servo button (lines 182 to 194), pressed at \<open>now\<close> and then found down at
  the clock values \<open>held\<close>.\<close>

definition nextservo_press :: "u32 \<Rightarrow> u32 list \<Rightarrow> controller \<Rightarrow> controller option" where
  "nextservo_press now held st0 = do {
     let st = st0\<lparr>lastchange := now\<rparr>;
     st1 \<leftarrow> ease_to_saved (unat (activeServo st)) st;
     st2 \<leftarrow> while_held held hold_step st1;
     let n = activeServo st2 + 1;
     let st3 = st2\<lparr>activeServo := (if unat n \<ge> nservos then 0 else n)\<rparr>;
     p \<leftarrow> rd (spos st3) 2 (unat (activeServo st3));
     let st4 = st3\<lparr>activePos := p\<rparr>;
     a \<leftarrow> rd (spos st4) (unat (activePos st4)) (unat (activeServo st4));
     st5 \<leftarrow> startEaseTo (unat (activeServo st4)) a st4;
     Some (delay 200 st5)
   }"

text \<open>The next-position button (lines 197 to 204).\<close>

definition nextposn_press :: "u32 \<Rightarrow> controller \<Rightarrow> controller option" where
  "nextposn_press now st0 = do {
     let st = st0\<lparr>lastchange := now\<rparr>;
     let n = activePos st + 1;
     let st1 = st\<lparr>activePos := (if n > 1 then 0 else n)\<rparr>;
     a \<leftarrow> rd (spos st1) (unat (activePos st1)) (unat (activeServo st1));
     st2 \<leftarrow> startEaseTo (unat (activeServo st1)) a st1;
     Some (delay 200 st2)
   }"

text \<open>The condition of line 207. \<open>lastchange+20000\<close> is computed on 32 bits and compared
  with the unsigned \<open>millis()\<close>.\<close>

definition save_due :: "u32 \<Rightarrow> controller \<Rightarrow> bool" where
  "save_due now st = (lastchange st \<noteq> 0 \<and> now > lastchange st + 20000)"

text \<open>Lines 208 to 218, the body of the save.\<close>

definition save :: "controller \<Rightarrow> controller option" where
  "save st =
     foreach [0..<nservos] ease_to_saved
       (st\<lparr>eeprom := EEPROM_put 1 (spos st) (eeprom st), lastchange := 0, activeServo := 0\<rparr>)"

text \<open>Lines 207 to 219.\<close>

definition persist :: "u32 \<Rightarrow> controller \<Rightarrow> controller option" where
  "persist now st = (if save_due now st then save st else Some st)"

text \<open>A sequence of single repeats of the two buttons, in any order: each is one
  iteration of the up loop or of the down loop, with the clock value it reads.\<close>

datatype button_event = Increase u32 | Decrease u32

fun adjust_event :: "button_event \<Rightarrow> controller \<Rightarrow> controller option" where
  "adjust_event (Increase now) st = up_step now st"
| "adjust_event (Decrease now) st = down_step now st"

fun adjust_events :: "button_event list \<Rightarrow> controller \<Rightarrow> controller option" where
  "adjust_events [] st = Some st"
| "adjust_events (ev # rest) st =
     (case adjust_event ev st of None \<Rightarrow> None | Some st' \<Rightarrow> adjust_events rest st')"

text \<open>What the outside world supplies during one pass of \<open>loop()\<close>.\<close>

record inputs =
  up_held :: "u32 list"                      \<comment> \<open>clock at each iteration of the up loop\<close>
  down_held :: "u32 list"                    \<comment> \<open>clock at each iteration of the down loop\<close>
  nextservo_at :: "(u32 \<times> u32 list) option"  \<comment> \<open>next-servo: clock at the press, and while held\<close>
  nextposn_at :: "u32 option"                \<comment> \<open>next-position: clock at the press\<close>
  save_clock :: u32                          \<comment> \<open>\<open>millis()\<close> on line 207\<close>
  levels :: "nat \<Rightarrow> bool"                    \<comment> \<open>\<open>digitalRead(controlPin[s])\<close>\<close>
  scan_clock :: "nat \<Rightarrow> u32"                 \<comment> \<open>\<open>millis()\<close> on line 98, per channel\<close>

text \<open>Lines 155 to 180: the local \<open>delayt\<close> is set to 200, then come the up loop and
  the down loop, which share it.\<close>

definition adjust :: "u32 list \<Rightarrow> u32 list \<Rightarrow> controller \<Rightarrow> controller option" where
  "adjust ups downs st0 = do {
     let st = st0\<lparr>delayt := 200\<rparr>;
     st1 \<leftarrow> while_held ups up_step st;
     while_held downs down_step st1
   }"

definition loop :: "inputs \<Rightarrow> controller \<Rightarrow> controller option" where
  "loop inp st = do {
     st2 \<leftarrow> adjust (up_held inp) (down_held inp) st;
     st3 \<leftarrow> (case nextservo_at inp of None \<Rightarrow> Some st2
            | Some (now, held) \<Rightarrow> nextservo_press now held st2);
     st4 \<leftarrow> (case nextposn_at inp of None \<Rightarrow> Some st3
            | Some now \<Rightarrow> nextposn_press now st3);
     st5 \<leftarrow> persist (save_clock inp) st4;
     st6 \<leftarrow> inputScan (levels inp) (scan_clock inp) st5;
     Some (delay 100 st6)
   }"

text \<open>A run of the sketch: \<open>setup()\<close> once, then \<open>loop()\<close> for each element of the input.\<close>

fun loops :: "inputs list \<Rightarrow> controller \<Rightarrow> controller option" where
  "loops [] st = Some st"
| "loops (inp # rest) st =
     (case loop inp st of None \<Rightarrow> None | Some st' \<Rightarrow> loops rest st')"

definition run :: "(nat \<Rightarrow> u8) \<Rightarrow> inputs list \<Rightarrow> controller option" where
  "run e inps = do { st \<leftarrow> setup_fn (power_on e); loops inps st }"

subsection \<open>Invariants and views of the state\<close>

text \<open>The array has its declared dimensions.\<close>

definition shape :: "u8 list list \<Rightarrow> bool" where
  "shape t = (length t = 3 \<and> length (t ! 0) = nservos \<and> length (t ! 1) = nservos
     \<and> length (t ! 2) = nservos)"

definition in_range :: "u8 \<Rightarrow> bool" where
  "in_range v = (MINPOSN \<le> uint v \<and> uint v \<le> MAXPOSN)"

definition is_slot :: "u8 \<Rightarrow> bool" where
  "is_slot p = (p = 0 \<or> p = 1)"

text \<open>Both stored positions of every servo lie between \<open>MINPOSN\<close> and \<open>MAXPOSN\<close>, and
  the current position of every servo is 0 or 1.\<close>

definition positions_in_range :: "u8 list list \<Rightarrow> bool" where
  "positions_in_range t = (shape t \<and> list_all in_range (t ! 0) \<and> list_all in_range (t ! 1))"

definition table_inv :: "u8 list list \<Rightarrow> bool" where
  "table_inv t = (positions_in_range t \<and> list_all is_slot (t ! 2))"

text \<open>The edit cursor points into the array.\<close>

definition cursor_inv :: "controller \<Rightarrow> bool" where
  "cursor_inv st = (unat (activeServo st) < nservos \<and> activePos st \<le> 1)"

text \<open>The test of line 95: the input of channel \<open>s\<close> does not match the current
  position recorded for servo \<open>s\<close>.\<close>

definition input_differs :: "(nat \<Rightarrow> bool) \<Rightarrow> controller \<Rightarrow> nat \<Rightarrow> bool" where
  "input_differs lv st s = (digitalRead (lv s) \<noteq> uint (spos st ! 2 ! s))"

text \<open>What an iteration of the up or down loop relies on.\<close>

definition editable :: "controller \<Rightarrow> bool" where
  "editable st = (positions_in_range (spos st) \<and> cursor_inv st)"

text \<open>The invariant of the whole state: a well-formed table and a cursor that points into
  it.\<close>

definition controller_inv :: "controller \<Rightarrow> bool" where
  "controller_inv st = (table_inv (spos st) \<and> cursor_inv st)"

text \<open>The table as the EEPROM holds it from address 1.\<close>

definition stored_table :: "controller \<Rightarrow> u8 list list" where
  "stored_table st = EEPROM_get 1 (eeprom st)"

text \<open>The sketch has no separate flag for a pending change: \<open>lastchange == 0\<close> stands
  for "nothing to save", any other value is the time of the last change.\<close>

definition DirtyMarker :: "controller \<Rightarrow> u32 option" where
  "DirtyMarker st = (if lastchange st = 0 then None else Some (lastchange st))"

text \<open>When nothing is marked as pending, the EEPROM holds the table that is in memory.\<close>

definition in_sync :: "controller \<Rightarrow> bool" where
  "in_sync st = (DirtyMarker st = None \<longrightarrow> stored_table st = spos st)"

text \<open>Every clock value that one pass of \<open>loop()\<close> assigns to \<open>lastchange\<close> (lines 98,
  158, 170, 182 and 197) is different from 0.\<close>

definition stamps_nonzero :: "inputs \<Rightarrow> bool" where
  "stamps_nonzero inp =
     (list_all (\<lambda>t. t \<noteq> 0) (up_held inp) \<and> list_all (\<lambda>t. t \<noteq> 0) (down_held inp)
      \<and> (case nextservo_at inp of None \<Rightarrow> True | Some (t, held) \<Rightarrow> t \<noteq> 0)
      \<and> (case nextposn_at inp of None \<Rightarrow> True | Some t \<Rightarrow> t \<noteq> 0)
      \<and> list_all (\<lambda>s. scan_clock inp s \<noteq> 0) [0..<nservos])"

text \<open>The durations of the \<open>delay\<close> calls in a trace.\<close>

fun delays_of :: "action list \<Rightarrow> nat list" where
  "delays_of [] = []"
| "delays_of (Wait ms # rest) = ms # delays_of rest"
| "delays_of (a # rest) = delays_of rest"

text \<open>The servo an action addresses.\<close>

fun servo_of :: "action \<Rightarrow> nat option" where
  "servo_of (EaseTo i a) = Some i"
| "servo_of (WriteNow i a) = Some i"
| "servo_of (Wait ms) = None"

subsection \<open>A concrete state\<close>

text \<open>The state in which \<open>setup()\<close> leaves the sketch when the EEPROM has never been
  written (every byte \<open>0xFF\<close>); the examples start from it.\<close>

definition factory :: controller where
  "factory = \<lparr>spos = [replicate nservos 130, replicate nservos 50, replicate nservos 0],
     activeServo = 0, activePos = 0, lastchange = 0, delayt = 0,
     eeprom = EEPROM_put 1 [replicate nservos 130, replicate nservos 50, replicate nservos 0]
                ((\<lambda>a. 0xFF)(0 := 0xA5)),
     trace = Wait 2000 # map (\<lambda>i. EaseTo i 130) [0..<nservos]\<rparr>"

text \<open>The same state with one unsaved edit: the first position of servo 0 raised from 130
  to 131 at clock value 5000.\<close>

definition edited :: controller where
  "edited = factory\<lparr>spos := [(replicate nservos 130)[0 := 131], replicate nservos 50,
     replicate nservos 0], lastchange := 5000\<rparr>"

text \<open>A state whose first positions are all at \<open>MAXPOSN\<close> and whose second positions
  are all at \<open>MINPOSN\<close>.\<close>

definition at_limits :: controller where
  "at_limits = factory\<lparr>spos := [replicate nservos 180, replicate nservos 0,
     replicate nservos 0]\<rparr>"

text \<open>An EEPROM that carries the marker but whose first data byte, the first position of
  servo 0, is 200; and the state in which \<open>setup()\<close> leaves the sketch on it.\<close>

definition stale_eeprom :: "nat \<Rightarrow> u8" where
  "stale_eeprom = (\<lambda>a. if a = 0 then 0xA5 else if a = 1 then 200 else 0)"

definition stale_state :: controller where
  "stale_state = (power_on stale_eeprom)\<lparr>
     spos := [[200, 0, 0, 0, 0, 0, 0, 0], [0, 0, 0, 0, 0, 0, 0, 0], [0, 0, 0, 0, 0, 0, 0, 0]],
     trace := [Wait 2000, EaseTo 0 200, EaseTo 1 0, EaseTo 2 0, EaseTo 3 0, EaseTo 4 0, EaseTo 5 0,
               EaseTo 6 0, EaseTo 7 0]\<rparr>"

text \<open>One pass of \<open>loop()\<close> in which the up button is found down once, the next-servo
  button is pressed briefly and input 3 is high.\<close>

definition busy_pass :: inputs where
  "busy_pass = \<lparr>up_held = [5000], down_held = [], nextservo_at = Some (6000, [6001]),
     nextposn_at = None, save_clock = 7000, levels = (\<lambda>s. s = 3),
     scan_clock = (\<lambda>s. 7000)\<rparr>"

text \<open>One pass of \<open>loop()\<close> around the moment the 32-bit clock wraps: the up button is
  found down once at 4294967106, 190 ms before the wrap; after the wait of 190 ms the
  next-position button is found down with the clock at 0. And the state in which this pass
  leaves \<open>factory\<close>.\<close>

definition wrap_pass :: inputs where
  "wrap_pass = \<lparr>up_held = [4294967106], down_held = [], nextservo_at = None,
     nextposn_at = Some 0, save_clock = 200, levels = (\<lambda>s. False),
     scan_clock = (\<lambda>s. 200)\<rparr>"

definition wrapped :: controller where
  "wrapped = factory\<lparr>
     spos := [(replicate nservos 130)[0 := 131], replicate nservos 50, replicate nservos 0],
     activePos := 1, lastchange := 0, delayt := 190,
     trace := trace factory @ [WriteNow 0 131, Wait 190, EaseTo 0 50, Wait 200, Wait 100]\<rparr>"

text \<open>Two ordinary passes of \<open>loop()\<close>: in the first the up button is found down once at
  5000; the second, 25 seconds later, finds no button down. All inputs are low.\<close>

definition edit_pass :: inputs where
  "edit_pass = \<lparr>up_held = [5000], down_held = [], nextservo_at = None, nextposn_at = None,
     save_clock = 5190, levels = (\<lambda>s. False), scan_clock = (\<lambda>s. 5190)\<rparr>"

definition save_pass :: inputs where
  "save_pass = \<lparr>up_held = [], down_held = [], nextservo_at = None, nextposn_at = None,
     save_clock = 30000, levels = (\<lambda>s. False), scan_clock = (\<lambda>s. 30000)\<rparr>"

text \<open>Inputs for one call of \<open>inputScan\<close>: only input 3 is high, and the clock reads 0
  throughout. And the state in which that call leaves \<open>edited\<close>.\<close>

definition only_input_3 :: "nat \<Rightarrow> bool" where
  "only_input_3 s = (s = 3)"

definition clock_at_zero :: "nat \<Rightarrow> u32" where
  "clock_at_zero s = 0"

definition scanned_at_zero :: controller where
  "scanned_at_zero = edited\<lparr>
     spos := [(replicate nservos 130)[0 := 131], replicate nservos 50,
              (replicate nservos 0)[3 := 1]],
     lastchange := 0,
     trace := trace edited @ [EaseTo 3 50]\<rparr>"

text \<open>The state \<open>factory\<close> with servo 3 at its second position.\<close>

definition servo_3_second :: controller where
  "servo_3_second = factory\<lparr>spos := [replicate nservos 130, replicate nservos 50,
     (replicate nservos 0)[3 := 1]]\<rparr>"


section \<open>Basic facts\<close>

lemma channels_unfold: "[0..<nservos] = [0, 1, 2, 3, 4, 5, 6, 7]"
  by (simp add: nservos_def upt_rec)

lemma shape_update:
  assumes "shape t" and "r < 3"
  shows "shape (t[r := (t ! r)[c := v]])"
proof -
  from assms(2) have "r = 0 \<or> r = 1 \<or> r = 2" by arith
  with assms(1) show ?thesis
    by (auto simp: shape_def nth_list_update)
qed

lemma nth_update_table:
  assumes "shape t" and "r < 3" and "c < nservos" and "r' < 3"
  shows "t[r := (t ! r)[c := v]] ! r' ! c' = (if r' = r \<and> c' = c then v else t ! r' ! c')"
proof -
  from assms(2) have "r = 0 \<or> r = 1 \<or> r = 2" by arith
  moreover from assms(4) have "r' = 0 \<or> r' = 1 \<or> r' = 2" by arith
  ultimately show ?thesis using assms(1,3)
    by (auto simp: shape_def nth_list_update)
qed

lemma is_slot_unat: "is_slot p \<Longrightarrow> unat p < 2"
  by (auto simp: is_slot_def)

lemma table_inv_slot: "table_inv t \<Longrightarrow> i < nservos \<Longrightarrow> is_slot (t ! 2 ! i)"
  by (simp add: table_inv_def positions_in_range_def shape_def list_all_length)

lemma table_inv_shape: "table_inv t \<Longrightarrow> shape t"
  by (simp add: table_inv_def positions_in_range_def)

subsection \<open>Easing every servo to its saved position\<close>

lemma ease_to_saved_Some:
  "i < nservos \<Longrightarrow> unat (spos st ! 2 ! i) < 3 \<Longrightarrow>
   ease_to_saved i st =
     Some (st\<lparr>trace := trace st @ [EaseTo i (spos st ! unat (spos st ! 2 ! i) ! i)]\<rparr>)"
  by (simp add: ease_to_saved_def rd_def startEaseTo_def)

lemma foreach_ease_to_saved:
  "\<forall>i\<in>set js. i < nservos \<and> unat (spos st ! 2 ! i) < 3 \<Longrightarrow>
   foreach js ease_to_saved st =
     Some (st\<lparr>trace := trace st @ map (\<lambda>i. EaseTo i (spos st ! unat (spos st ! 2 ! i) ! i)) js\<rparr>)"
proof (induction js arbitrary: st)
  case Nil
  then show ?case by simp
next
  case (Cons j js)
  let ?st1 = "st\<lparr>trace := trace st @ [EaseTo j (spos st ! unat (spos st ! 2 ! j) ! j)]\<rparr>"
  have step: "ease_to_saved j st = Some ?st1"
    using Cons.prems by (simp add: ease_to_saved_Some)
  have "\<forall>i\<in>set js. i < nservos \<and> unat (spos ?st1 ! 2 ! i) < 3"
    using Cons.prems by simp
  from Cons.IH [OF this] step show ?case by simp
qed

lemma ease_all_saved:
  assumes "table_inv (spos st)"
  shows "foreach [0..<nservos] ease_to_saved st =
     Some (st\<lparr>trace := trace st @
        map (\<lambda>i. EaseTo i (spos st ! unat (spos st ! 2 ! i) ! i)) [0..<nservos]\<rparr>)"
proof (rule foreach_ease_to_saved, intro ballI conjI)
  fix i assume "i \<in> set [0..<nservos]"
  then show i: "i < nservos" by simp
  from table_inv_slot [OF assms i] have "unat (spos st ! 2 ! i) < 2"
    by (rule is_slot_unat)
  then show "unat (spos st ! 2 ! i) < 3" by simp
qed

subsection \<open>EEPROM\<close>

lemma EEPROM_get_put:
  assumes "shape t"
  shows "EEPROM_get idx (EEPROM_put idx t e) = t"
proof -
  have cell: "EEPROM_put idx t e (idx + r * nservos + c) = t ! r ! c"
    if "r < 3" "c < nservos" for r c
  proof -
    from that have "r * nservos + c < 3 * nservos"
      by (simp add: nservos_def)
    moreover from that have "(r * nservos + c) div nservos = r" "(r * nservos + c) mod nservos = c"
      by simp_all
    ultimately show ?thesis
      by (simp add: EEPROM_put_def add.assoc)
  qed
  have row: "map (\<lambda>c. EEPROM_put idx t e (idx + r * nservos + c)) [0..<nservos] = t ! r"
    if "r < 3" for r
  proof (rule nth_equalityI)
    from that have "r = 0 \<or> r = 1 \<or> r = 2" by arith
    with assms show "length (map (\<lambda>c. EEPROM_put idx t e (idx + r * nservos + c)) [0..<nservos]) = length (t ! r)"
      by (auto simp: shape_def)
  next
    fix c assume "c < length (map (\<lambda>c. EEPROM_put idx t e (idx + r * nservos + c)) [0..<nservos])"
    then show "map (\<lambda>c. EEPROM_put idx t e (idx + r * nservos + c)) [0..<nservos] ! c = t ! r ! c"
      using that by (simp add: cell)
  qed
  show ?thesis
    unfolding EEPROM_get_def
  proof (rule nth_equalityI)
    show "length (map (\<lambda>r. map (\<lambda>c. EEPROM_put idx t e (idx + r * nservos + c)) [0..<nservos]) [0..<3]) = length t"
      using assms by (simp add: shape_def)
  next
    fix r assume "r < length (map (\<lambda>r. map (\<lambda>c. EEPROM_put idx t e (idx + r * nservos + c)) [0..<nservos]) [0..<3])"
    then have "r < 3" by simp
    then show "map (\<lambda>r. map (\<lambda>c. EEPROM_put idx t e (idx + r * nservos + c)) [0..<nservos]) [0..<3] ! r = t ! r"
      by (simp add: row)
  qed
qed

lemma EEPROM_put_other: "a < idx \<Longrightarrow> EEPROM_put idx t e a = e a"
  by (simp add: EEPROM_put_def)

lemma init_eeprom_bad_marker:
  assumes "e 0 \<noteq> 0xA5"
  shows "init_eeprom (delay 2000 (power_on e)) =
    Some ((delay 2000 (power_on e))\<lparr>spos := [replicate nservos 130, replicate nservos 50, replicate nservos 0],
       eeprom := EEPROM_put 1 [replicate nservos 130, replicate nservos 50, replicate nservos 0] (e(0 := 0xA5))\<rparr>)"
  using assms
  by (simp add: init_eeprom_def power_on_def delay_def channels_unfold init_channel_def wr_def
      MAXPOSN_def MINPOSN_def)
     (simp add: nservos_def numeral_eq_Suc)

lemma table_inv_defaults:
  "table_inv [replicate nservos 130, replicate nservos 50, replicate nservos 0]"
  by (simp add: table_inv_def positions_in_range_def shape_def list_all_length in_range_def
      is_slot_def MINPOSN_def MAXPOSN_def)

subsection \<open>The buttons\<close>

lemma not_gt_1_unat: "\<not> 1 < (p::u8) \<Longrightarrow> unat p < 2"
proof -
  assume "\<not> 1 < p"
  then have "p \<le> 1" by (simp add: not_less)
  then have "unat p \<le> unat (1::u8)" by (simp only: word_le_nat_alt)
  then show ?thesis by simp
qed

lemma nextposn_press_Some:
  assumes "unat (activeServo st) < nservos"
  shows "nextposn_press now st =
    Some (st\<lparr>lastchange := now,
       activePos := (if activePos st + 1 > 1 then 0 else activePos st + 1),
       trace := trace st @
         [EaseTo (unat (activeServo st))
            (spos st ! unat (if activePos st + 1 > 1 then 0 else activePos st + 1)
                     ! unat (activeServo st)),
          Wait 200]\<rparr>)"
proof (cases "activePos st + 1 > 1")
  case True
  with assms show ?thesis
    by (simp add: nextposn_press_def Let_def rd_def startEaseTo_def delay_def)
next
  case False
  from not_gt_1_unat [OF this] have "unat (activePos st + 1) < 3" by simp
  with False assms show ?thesis
    by (simp add: nextposn_press_def Let_def rd_def startEaseTo_def delay_def)
qed

lemma while_held_hold_step:
  "while_held held hold_step st =
     Some (if \<exists>t\<in>set held. t - lastchange st > 2000
           then st\<lparr>activeServo := word_of_nat nservos\<rparr> else st)"
proof (induction held arbitrary: st)
  case Nil
  then show ?case by simp
next
  case (Cons t held)
  show ?case
  proof (cases "t - lastchange st > 2000")
    case True
    then have "hold_step t st = Some (st\<lparr>activeServo := word_of_nat nservos\<rparr>)"
      by (simp add: hold_step_def)
    then have "while_held (t # held) hold_step st =
        while_held held hold_step (st\<lparr>activeServo := word_of_nat nservos\<rparr>)"
      by simp
    with True show ?thesis
      by (simp add: Cons.IH)
  next
    case False
    then have "hold_step t st = Some st"
      by (simp add: hold_step_def)
    then have "while_held (t # held) hold_step st = while_held held hold_step st"
      by simp
    with False show ?thesis
      by (simp add: Cons.IH)
  qed
qed

lemma next_servo_short:
  assumes "unat (a::u8) < nservos"
  shows "unat (if unat (a + 1) \<ge> nservos then 0 else a + 1) = (unat a + 1) mod nservos"
proof -
  from assms have s: "unat (a + 1) = unat a + 1"
    by (simp add: nservos_def unat_word_ariths)
  show ?thesis
  proof (cases "unat a = 7")
    case True
    with s show ?thesis by (simp add: nservos_def)
  next
    case False
    with assms have "unat a + 1 < nservos" by (simp add: nservos_def)
    with s show ?thesis by simp
  qed
qed

lemma next_servo_long:
  "(if unat (word_of_nat nservos + (1::u8)) \<ge> nservos then 0 else word_of_nat nservos + 1) = (0::u8)"
  by (simp add: nservos_def)

lemma nextservo_press_Some:
  fixes st :: controller and now :: u32 and held :: "u32 list"
  assumes inv: "table_inv (spos st)" and a: "unat (activeServo st) < nservos"
  defines "a' \<equiv> (if \<exists>t\<in>set held. t - now > 2000 then 0
                  else if unat (activeServo st + 1) \<ge> nservos then 0 else activeServo st + 1)"
  shows "nextservo_press now held st =
    Some (st\<lparr>lastchange := now, activeServo := a', activePos := spos st ! 2 ! unat a',
       trace := trace st @
         [EaseTo (unat (activeServo st))
            (spos st ! unat (spos st ! 2 ! unat (activeServo st)) ! unat (activeServo st)),
          EaseTo (unat a') (spos st ! unat (spos st ! 2 ! unat a') ! unat a'),
          Wait 200]\<rparr>)"
proof -
  have a'_lt: "unat a' < nservos"
  proof (cases "\<exists>t\<in>set held. t - now > 2000")
    case True
    then show ?thesis by (simp add: a'_def nservos_def)
  next
    case False
    with next_servo_short [OF a] show ?thesis
      by (simp add: a'_def nservos_def)
  qed
  have slot_a: "unat (spos st ! 2 ! unat (activeServo st)) < 3"
    using is_slot_unat [OF table_inv_slot [OF inv a]] by simp
  have slot_a': "unat (spos st ! 2 ! unat a') < 3"
    using is_slot_unat [OF table_inv_slot [OF inv a'_lt]] by simp
  define st1 where "st1 = st\<lparr>lastchange := now, trace := trace st @
      [EaseTo (unat (activeServo st))
         (spos st ! unat (spos st ! 2 ! unat (activeServo st)) ! unat (activeServo st))]\<rparr>"
  have e1: "ease_to_saved (unat (activeServo st)) (st\<lparr>lastchange := now\<rparr>) = Some st1"
    using a slot_a by (simp add: ease_to_saved_Some st1_def)
  define st2 where "st2 = (if \<exists>t\<in>set held. t - now > 2000
           then st1\<lparr>activeServo := word_of_nat nservos\<rparr> else st1)"
  have e2: "while_held held hold_step st1 = Some st2"
    by (simp add: while_held_hold_step st2_def st1_def)
  have e3: "(if unat (activeServo st2 + 1) \<ge> nservos then 0 else activeServo st2 + 1) = a'"
  proof (cases "\<exists>t\<in>set held. t - now > 2000")
    case True
    then have "activeServo st2 = word_of_nat nservos" by (simp add: st2_def)
    with True show ?thesis by (simp only: next_servo_long a'_def if_True)
  next
    case False
    then have "activeServo st2 = activeServo st" by (simp add: st2_def st1_def)
    with False show ?thesis by (simp add: a'_def)
  qed
  have sp2: "spos st2 = spos st" "trace st2 = trace st1" "lastchange st2 = now"
    by (simp_all add: st2_def st1_def)
  show ?thesis
    unfolding nextservo_press_def Let_def
    apply (simp add: e1 del: bind_eq_Some_conv)
    apply (simp add: e2 e3 sp2 rd_def startEaseTo_def delay_def a'_lt slot_a')
    apply (simp add: st2_def st1_def)
    done
qed

subsection \<open>The concrete state\<close>

lemma factory_table_inv: "table_inv (spos (factory\<lparr>activeServo := a\<rparr>))" "table_inv (spos factory)"
  by (simp_all add: factory_def table_inv_defaults)

lemma setup_blank: "setup_fn (power_on (\<lambda>a. 0xFF)) = Some factory"
proof -
  have "(\<lambda>a. 0xFF :: u8) 0 \<noteq> 0xA5" by simp
  from init_eeprom_bad_marker [OF this] show ?thesis
    apply (simp add: setup_fn_def retrieve_def EEPROM_get_put table_inv_shape [OF table_inv_defaults])
    apply (simp add: channels_unfold ease_to_saved_def rd_def startEaseTo_def power_on_def
        delay_def factory_def)
    apply (simp add: nservos_def)
    done
qed

subsection \<open>Up, down and save\<close>

lemma up_step_Some:
  assumes "shape (spos st)" and "unat (activePos st) < 3" and "unat (activeServo st) < nservos"
  shows "up_step now st =
    Some (st\<lparr>lastchange := now,
       spos := (if uint (spos st ! unat (activePos st) ! unat (activeServo st)) < MAXPOSN
                then (spos st)[unat (activePos st) := (spos st ! unat (activePos st))
                   [unat (activeServo st) := spos st ! unat (activePos st) ! unat (activeServo st) + 1]]
                else spos st),
       delayt := next_delay (delayt st),
       trace := trace st @
         [WriteNow (unat (activeServo st))
            (if uint (spos st ! unat (activePos st) ! unat (activeServo st)) < MAXPOSN
             then spos st ! unat (activePos st) ! unat (activeServo st) + 1
             else spos st ! unat (activePos st) ! unat (activeServo st)),
          Wait (unat (next_delay (delayt st)))]\<rparr>)"
  using assms
  by (simp add: up_step_def Let_def rd_def wr_def servo_write_def delay_def nth_update_table)

lemma down_step_Some:
  assumes "shape (spos st)" and "unat (activePos st) < 3" and "unat (activeServo st) < nservos"
  shows "down_step now st =
    Some (st\<lparr>lastchange := now,
       spos := (if uint (spos st ! unat (activePos st) ! unat (activeServo st)) > MINPOSN
                then (spos st)[unat (activePos st) := (spos st ! unat (activePos st))
                   [unat (activeServo st) := spos st ! unat (activePos st) ! unat (activeServo st) - 1]]
                else spos st),
       delayt := next_delay (delayt st),
       trace := trace st @
         [WriteNow (unat (activeServo st))
            (if uint (spos st ! unat (activePos st) ! unat (activeServo st)) > MINPOSN
             then spos st ! unat (activePos st) ! unat (activeServo st) - 1
             else spos st ! unat (activePos st) ! unat (activeServo st)),
          Wait (unat (next_delay (delayt st)))]\<rparr>)"
  using assms
  by (simp add: down_step_def Let_def rd_def wr_def servo_write_def delay_def nth_update_table)

lemma save_Some:
  assumes "table_inv (spos st)"
  shows "save st =
    Some (st\<lparr>eeprom := EEPROM_put 1 (spos st) (eeprom st), lastchange := 0, activeServo := 0,
       trace := trace st @
         map (\<lambda>i. EaseTo i (spos st ! unat (spos st ! 2 ! i) ! i)) [0..<nservos]\<rparr>)"
proof -
  let ?st = "st\<lparr>eeprom := EEPROM_put 1 (spos st) (eeprom st), lastchange := 0, activeServo := 0\<rparr>"
  have "table_inv (spos ?st)" using assms by simp
  from ease_all_saved [OF this] show ?thesis
    by (simp add: save_def)
qed


lemma edited_table_inv: "table_inv (spos edited)"
  by (simp add: edited_def factory_def table_inv_def positions_in_range_def shape_def
      list_all_length in_range_def is_slot_def MINPOSN_def MAXPOSN_def nth_list_update)


subsection \<open>The repeat delay\<close>

lemma next_delay_unat:
  assumes "50 \<le> unat d"
  shows "unat (next_delay d) = max 50 (unat d - 10)"
proof -
  have "unat (10::u8) \<le> unat d" using assms by simp
  then have "unat (d - 10) = unat d - unat (10::u8)"
    by (simp only: word_le_nat_alt [symmetric] unat_sub)
  then have s: "unat (d - 10) = unat d - 10" by simp
  have "d - 10 < 50 \<longleftrightarrow> unat (d - 10) < unat (50::u8)"
    by (simp only: word_less_nat_alt)
  with s show ?thesis
    by (auto simp: next_delay_def)
qed

lemma max_50_step: "max 50 (max 50 (d - 10) - 10 * Suc k) = max (50::nat) (d - 10 * Suc (Suc k))"
  unfolding max_def by (simp split: if_splits) arith

lemma while_held_delays:
  fixes body :: "u32 \<Rightarrow> controller \<Rightarrow> controller option"
  assumes step: "\<And>now st. I st \<Longrightarrow> \<exists>st' a. body now st = Some st' \<and> I st'
      \<and> delayt st' = next_delay (delayt st)
      \<and> trace st' = trace st @ [a, Wait (unat (delayt st'))] \<and> delays_of [a] = []"
  assumes "I st" and "50 \<le> unat (delayt st)"
  shows "\<exists>st' new. while_held ts body st = Some st' \<and> I st'
      \<and> trace st' = trace st @ new
      \<and> delays_of new = map (\<lambda>k. max 50 (unat (delayt st) - 10 * Suc k)) [0..<length ts]
      \<and> unat (delayt st') = max 50 (unat (delayt st) - 10 * length ts)"
  using assms(2,3)
proof (induction ts arbitrary: st)
  case Nil
  then show ?case by simp
next
  case (Cons t ts)
  from step [OF Cons.prems(1), of t] obtain st1 a where
    s1: "body t st = Some st1" "I st1" "delayt st1 = next_delay (delayt st)"
      "trace st1 = trace st @ [a, Wait (unat (delayt st1))]" "delays_of [a] = []"
    by blast
  have d1: "unat (delayt st1) = max 50 (unat (delayt st) - 10)"
    using Cons.prems(2) by (simp add: s1(3) next_delay_unat)
  then have "50 \<le> unat (delayt st1)" by simp
  from Cons.IH [OF s1(2) this] obtain st' new where
    s2: "while_held ts body st1 = Some st'" "I st'" "trace st' = trace st1 @ new"
      "delays_of new = map (\<lambda>k. max 50 (unat (delayt st1) - 10 * Suc k)) [0..<length ts]"
      "unat (delayt st') = max 50 (unat (delayt st1) - 10 * length ts)"
    by blast
  have da: "delays_of (a # rest) = delays_of rest" for rest
    using s1(5) by (cases a) simp_all
  have w: "while_held (t # ts) body st = Some st'"
    by (simp add: s1(1) s2(1))
  have tr: "trace st' = trace st @ (a # Wait (unat (delayt st1)) # new)"
    by (simp add: s2(3) s1(4))
  have "map (\<lambda>k. max 50 (unat (delayt st) - 10 * Suc k)) [0..<length (t # ts)]
      = max 50 (unat (delayt st) - 10) # map (\<lambda>k. max 50 (unat (delayt st) - 10 * Suc (Suc k))) [0..<length ts]"
    by (simp add: upt_conv_Cons map_Suc_upt [symmetric] del: upt_Suc)
  also have "\<dots> = unat (delayt st1) # map (\<lambda>k. max 50 (unat (delayt st1) - 10 * Suc k)) [0..<length ts]"
    by (simp only: d1 max_50_step)
  finally have dl: "delays_of (a # Wait (unat (delayt st1)) # new)
      = map (\<lambda>k. max 50 (unat (delayt st) - 10 * Suc k)) [0..<length (t # ts)]"
    by (simp add: da s2(4))
  have fin: "unat (delayt st') = max 50 (unat (delayt st) - 10 * length (t # ts))"
    using max_50_step [of "unat (delayt st)" "length ts - 1"]
    by (cases ts) (simp_all add: s2(5) d1)
  from w s2(2) tr dl fin show ?case by blast
qed

subsection \<open>Up and down keep the positions in range\<close>

lemma in_range_inc: "in_range v \<Longrightarrow> uint v < MAXPOSN \<Longrightarrow> in_range (v + 1)"
proof -
  assume a: "in_range v" "uint v < MAXPOSN"
  then have "uint v + uint (1::u8) < 2 ^ LENGTH(8)" by (simp add: MAXPOSN_def)
  then have "uint (v + 1) = uint v + uint (1::u8)" by (simp only: uint_add_lem)
  with a show ?thesis by (simp add: in_range_def MINPOSN_def MAXPOSN_def)
qed

lemma in_range_dec: "in_range v \<Longrightarrow> uint v > MINPOSN \<Longrightarrow> in_range (v - 1)"
proof -
  assume a: "in_range v" "uint v > MINPOSN"
  then have "uint (1::u8) \<le> uint v" by (simp add: MINPOSN_def)
  then have "uint (v - 1) = uint v - uint (1::u8)" by (simp only: uint_sub_lem)
  with a show ?thesis by (simp add: in_range_def MINPOSN_def MAXPOSN_def)
qed

lemma cursor_inv_unat: "cursor_inv st \<Longrightarrow> unat (activePos st) < 2 \<and> unat (activeServo st) < nservos"
proof -
  assume c: "cursor_inv st"
  then have "unat (activePos st) \<le> unat (1::u8)"
    by (simp only: cursor_inv_def word_le_nat_alt)
  with c show ?thesis by (simp add: cursor_inv_def)
qed

lemma list_all_update: "list_all P xs \<Longrightarrow> P v \<Longrightarrow> list_all P (xs[c := v])"
  using set_update_subset_insert [of xs c v] by (auto simp: list_all_iff)

lemma positions_update:
  assumes "positions_in_range t" and "r < 2" and "c < nservos" and "in_range v"
  shows "positions_in_range (t[r := (t ! r)[c := v]])" and "t[r := (t ! r)[c := v]] ! 2 = t ! 2"
proof -
  from assms(2) have r: "r = 0 \<or> r = 1" by arith
  have sh: "shape t" using assms(1) by (simp add: positions_in_range_def)
  then have "shape (t[r := (t ! r)[c := v]])" using assms(2) by (simp add: shape_update)
  moreover have "list_all in_range ((t ! r)[c := v])"
    using assms(1,4) r
    by (auto simp: positions_in_range_def intro: list_all_update)
  ultimately show "positions_in_range (t[r := (t ! r)[c := v]])"
    using assms(1) r sh
    by (auto simp: positions_in_range_def shape_def nth_list_update)
  show "t[r := (t ! r)[c := v]] ! 2 = t ! 2"
    using r by auto
qed

lemma positions_nth:
  assumes "positions_in_range t" and "r < 2" and "c < nservos"
  shows "in_range (t ! r ! c)"
proof -
  from assms(2) have "r = 0 \<or> r = 1" by arith
  with assms(1,3) show ?thesis
    by (auto simp: positions_in_range_def shape_def list_all_length)
qed

lemma up_step_effect:
  assumes "editable st"
  shows "\<exists>st'. up_step now st = Some st' \<and> editable st'
     \<and> spos st' ! 2 = spos st ! 2
     \<and> activePos st' = activePos st \<and> activeServo st' = activeServo st
     \<and> delayt st' = next_delay (delayt st) \<and> lastchange st' = now \<and> eeprom st' = eeprom st
     \<and> trace st' = trace st @
          [WriteNow (unat (activeServo st)) (spos st' ! unat (activePos st) ! unat (activeServo st)),
           Wait (unat (delayt st'))]"
proof -
  from assms have pr: "positions_in_range (spos st)" and ci: "cursor_inv st"
    by (simp_all add: editable_def)
  from cursor_inv_unat [OF ci] have r: "unat (activePos st) < 2" and c: "unat (activeServo st) < nservos"
    by simp_all
  have sh: "shape (spos st)" using pr by (simp add: positions_in_range_def)
  from r have r3: "unat (activePos st) < 3" by simp
  let ?v = "spos st ! unat (activePos st) ! unat (activeServo st)"
  have v: "in_range ?v" by (rule positions_nth [OF pr r c])
  show ?thesis
  proof (cases "uint ?v < MAXPOSN")
    case True
    from positions_update [OF pr r c in_range_inc [OF v True]] True ci show ?thesis
      by (simp add: up_step_Some [OF sh r3 c] editable_def cursor_inv_def
          nth_update_table [OF sh r3 c r3])
  next
    case False
    with pr ci show ?thesis
      by (simp add: up_step_Some [OF sh r3 c] editable_def cursor_inv_def)
  qed
qed

lemma down_step_effect:
  assumes "editable st"
  shows "\<exists>st'. down_step now st = Some st' \<and> editable st'
     \<and> spos st' ! 2 = spos st ! 2
     \<and> activePos st' = activePos st \<and> activeServo st' = activeServo st
     \<and> delayt st' = next_delay (delayt st) \<and> lastchange st' = now \<and> eeprom st' = eeprom st
     \<and> trace st' = trace st @
          [WriteNow (unat (activeServo st)) (spos st' ! unat (activePos st) ! unat (activeServo st)),
           Wait (unat (delayt st'))]"
proof -
  from assms have pr: "positions_in_range (spos st)" and ci: "cursor_inv st"
    by (simp_all add: editable_def)
  from cursor_inv_unat [OF ci] have r: "unat (activePos st) < 2" and c: "unat (activeServo st) < nservos"
    by simp_all
  have sh: "shape (spos st)" using pr by (simp add: positions_in_range_def)
  from r have r3: "unat (activePos st) < 3" by simp
  let ?v = "spos st ! unat (activePos st) ! unat (activeServo st)"
  have v: "in_range ?v" by (rule positions_nth [OF pr r c])
  show ?thesis
  proof (cases "uint ?v > MINPOSN")
    case True
    from positions_update [OF pr r c in_range_dec [OF v True]] True ci show ?thesis
      by (simp add: down_step_Some [OF sh r3 c] editable_def cursor_inv_def
          nth_update_table [OF sh r3 c r3])
  next
    case False
    with pr ci show ?thesis
      by (simp add: down_step_Some [OF sh r3 c] editable_def cursor_inv_def)
  qed
qed

lemma delays_of_append: "delays_of (xs @ ys) = delays_of xs @ delays_of ys"
  by (induction xs rule: delays_of.induct) simp_all

lemma max_50_sub: "max 50 (max 50 (d - a) - b) = max (50::nat) (d - (a + b))"
proof (cases "50 \<le> d - a")
  case True
  then have "max 50 (d - a) = d - a" by simp
  then show ?thesis by (simp add: diff_diff_left)
next
  case False
  then have "max 50 (d - a) = 50" "d - (a + b) \<le> 50" by simp_all
  then show ?thesis by simp
qed

lemma delay_mono: "i \<le> j \<Longrightarrow> max 50 (200 - 10 * Suc j) \<le> max (50::nat) (200 - 10 * Suc i)"
  by (rule max.mono) simp_all

lemma delays_never_increase:
  "sorted_wrt (\<lambda>a b. b \<le> a) (map (\<lambda>k. max (50::nat) (200 - 10 * Suc k)) [0..<n])"
  unfolding sorted_wrt_iff_nth_less
proof (intro allI impI)
  fix i j assume "i < j" and j: "j < length (map (\<lambda>k. max (50::nat) (200 - 10 * Suc k)) [0..<n])"
  then have "i < n" "j < n" "i \<le> j" by simp_all
  then show "map (\<lambda>k. max (50::nat) (200 - 10 * Suc k)) [0..<n] ! j
      \<le> map (\<lambda>k. max (50::nat) (200 - 10 * Suc k)) [0..<n] ! i"
    by (simp only: nth_map length_upt nth_upt add_0 minus_nat.diff_0 delay_mono)
qed

lemma delays_split:
  "map (\<lambda>k. max 50 (200 - 10 * Suc k)) [0..<m + n]
      = map (\<lambda>k. max (50::nat) (200 - 10 * Suc k)) [0..<m]
        @ map (\<lambda>k. max 50 (200 - 10 * Suc (m + k))) [0..<n]"
proof -
  have a: "[0..<m + n] = [0..<m] @ [m..<m + n]"
    by (rule upt_add_eq_append) simp
  have "map (\<lambda>i. i + m) [0..<n] = [m..<n + m]"
    by (rule map_add_upt)
  then have b: "[m..<m + n] = map (\<lambda>i. m + i) [0..<n]"
    by (simp only: add.commute [of m])
  show ?thesis
    unfolding a map_append by (simp only: b map_map o_def)
qed

lemma editable_factory: "editable factory"
  using factory_table_inv(2)
  by (simp add: editable_def table_inv_def cursor_inv_def) (simp add: factory_def nservos_def)

lemma editable_delayt: "editable (st\<lparr>delayt := d\<rparr>) = editable st"
  by (simp add: editable_def cursor_inv_def)

lemma up_step_delays:
  assumes "editable st"
  shows "\<exists>st' a. up_step now st = Some st' \<and> editable st'
      \<and> delayt st' = next_delay (delayt st)
      \<and> trace st' = trace st @ [a, Wait (unat (delayt st'))] \<and> delays_of [a] = []"
proof -
  from up_step_effect [OF assms, of now] obtain st' where
    "up_step now st = Some st'" "editable st'" "delayt st' = next_delay (delayt st)"
    "trace st' = trace st @
          [WriteNow (unat (activeServo st)) (spos st' ! unat (activePos st) ! unat (activeServo st)),
           Wait (unat (delayt st'))]"
    by blast
  moreover have "delays_of [WriteNow (unat (activeServo st))
      (spos st' ! unat (activePos st) ! unat (activeServo st))] = []"
    by simp
  ultimately show ?thesis by blast
qed

lemma down_step_delays:
  assumes "editable st"
  shows "\<exists>st' a. down_step now st = Some st' \<and> editable st'
      \<and> delayt st' = next_delay (delayt st)
      \<and> trace st' = trace st @ [a, Wait (unat (delayt st'))] \<and> delays_of [a] = []"
proof -
  from down_step_effect [OF assms, of now] obtain st' where
    "down_step now st = Some st'" "editable st'" "delayt st' = next_delay (delayt st)"
    "trace st' = trace st @
          [WriteNow (unat (activeServo st)) (spos st' ! unat (activePos st) ! unat (activeServo st)),
           Wait (unat (delayt st'))]"
    by blast
  moreover have "delays_of [WriteNow (unat (activeServo st))
      (spos st' ! unat (activePos st) ! unat (activeServo st))] = []"
    by simp
  ultimately show ?thesis by blast
qed

lemma up_factory:
  "up_step 5000 (factory\<lparr>delayt := 200\<rparr>) =
     Some (factory\<lparr>spos := [(replicate nservos 130)[0 := 131], replicate nservos 50,
                             replicate nservos 0],
                    lastchange := 5000, delayt := 190,
                    trace := trace factory @ [WriteNow 0 131, Wait 190]\<rparr>)"
proof -
  let ?s = "factory\<lparr>delayt := 200\<rparr>"
  have sh: "shape (spos ?s)"
    using editable_factory by (simp add: editable_def positions_in_range_def)
  have f: "activePos factory = 0" "activeServo factory = 0"
     "spos factory = [replicate nservos 130, replicate nservos 50, replicate nservos 0]"
    by (simp_all add: factory_def)
  have n: "0 < nservos" by (simp add: nservos_def)
  have r: "unat (activePos ?s) < 3" and c: "unat (activeServo ?s) < nservos"
    by (simp_all add: f n)
  have nd: "next_delay 200 = 190" by (simp add: next_delay_def)
  show ?thesis
    unfolding up_step_Some [OF sh r c]
    by (simp add: f n MAXPOSN_def nd)
qed

lemma adjust_one_up:
  "adjust [5000] [] factory =
     Some (factory\<lparr>spos := [(replicate nservos 130)[0 := 131], replicate nservos 50,
                             replicate nservos 0],
                    lastchange := 5000, delayt := 190,
                    trace := trace factory @ [WriteNow 0 131, Wait 190]\<rparr>)"
  by (simp add: adjust_def up_factory)

lemma adjust_event_effect:
  assumes "editable st"
  shows "\<exists>st'. adjust_event ev st = Some st' \<and> editable st'"
proof (cases ev)
  case (Increase now)
  with up_step_effect [OF assms, of now] show ?thesis by auto
next
  case (Decrease now)
  with down_step_effect [OF assms, of now] show ?thesis by auto
qed

lemma adjust_events_editable:
  assumes "editable st"
  shows "\<exists>st'. adjust_events evs st = Some st' \<and> editable st'"
  using assms
proof (induction evs arbitrary: st)
  case Nil
  then show ?case by simp
next
  case (Cons ev evs)
  from adjust_event_effect [OF Cons.prems, of ev] obtain st1 where
    s: "adjust_event ev st = Some st1" "editable st1" by blast
  from Cons.IH [OF s(2)] s(1) show ?case by simp
qed

lemma editable_at_limits: "editable at_limits" "editable (at_limits\<lparr>activePos := 1\<rparr>)"
  by (simp_all add: editable_def cursor_inv_def positions_in_range_def shape_def at_limits_def
      factory_def list_all_length in_range_def MINPOSN_def MAXPOSN_def nservos_def)

subsection \<open>inputScan\<close>

lemma lnot_unat: "unat (lnot x) < 2"
  by (simp add: lnot_def)

lemma scan_channel_Some:
  assumes "shape (spos st)" and "s < nservos"
  shows "scan_channel lv clk s st =
    Some (if input_differs lv st s
          then st\<lparr>spos := (spos st)[2 := (spos st ! 2)[s := lnot (spos st ! 2 ! s)]],
                  trace := trace st @
                    [EaseTo s (if spos st ! 2 ! s = 0 then spos st ! 1 ! s else spos st ! 0 ! s)],
                  lastchange := clk s\<rparr>
          else st)"
proof (cases "input_differs lv st s")
  case False
  with assms(2) show ?thesis
    by (simp add: scan_channel_def rd_def input_differs_def)
next
  case True
  let ?t = "(spos st)[2 := (spos st ! 2)[s := lnot (spos st ! 2 ! s)]]"
  have two: "(2::nat) < 3" by simp
  have p: "?t ! 2 ! s = lnot (spos st ! 2 ! s)"
    using nth_update_table [OF assms(1) two assms(2) two] by simp
  have r: "unat (lnot (spos st ! 2 ! s)) < 3"
    using lnot_unat [of "spos st ! 2 ! s"] by simp
  have a: "?t ! unat (lnot (spos st ! 2 ! s)) ! s =
      (if spos st ! 2 ! s = 0 then spos st ! 1 ! s else spos st ! 0 ! s)"
    using nth_update_table [OF assms(1) two assms(2) r, of "lnot (spos st ! 2 ! s)" s]
    by (simp add: lnot_def)
  from True assms(2) r show ?thesis
    by (simp add: scan_channel_def rd_def wr_def startEaseTo_def input_differs_def p a)
qed

lemma foreach_scan:
  assumes "shape (spos st)" and "distinct js" and "\<forall>j\<in>set js. j < nservos"
  shows "\<exists>st'. foreach js (scan_channel lv clk) st = Some st'
     \<and> shape (spos st') \<and> spos st' ! 0 = spos st ! 0 \<and> spos st' ! 1 = spos st ! 1
     \<and> (\<forall>s<nservos. spos st' ! 2 ! s =
           (if s \<in> set js \<and> input_differs lv st s then lnot (spos st ! 2 ! s)
            else spos st ! 2 ! s))
     \<and> trace st' = trace st @ concat (map (\<lambda>s. if input_differs lv st s
           then [EaseTo s (if spos st ! 2 ! s = 0 then spos st ! 1 ! s else spos st ! 0 ! s)]
           else []) js)
     \<and> lastchange st' = foldl (\<lambda>lc s. if input_differs lv st s then clk s else lc) (lastchange st) js
     \<and> activeServo st' = activeServo st \<and> activePos st' = activePos st
     \<and> eeprom st' = eeprom st \<and> delayt st' = delayt st"
  using assms
proof (induction js arbitrary: st)
  case Nil
  then show ?case by simp
next
  case (Cons j js)
  have j: "j < nservos" and jn: "j \<notin> set js" and dj: "distinct js"
    and lt: "\<forall>k\<in>set js. k < nservos"
    using Cons.prems by simp_all
  have two: "(2::nat) < 3" by simp
  define st1 where "st1 = (if input_differs lv st j
          then st\<lparr>spos := (spos st)[2 := (spos st ! 2)[j := lnot (spos st ! 2 ! j)]],
                  trace := trace st @
                    [EaseTo j (if spos st ! 2 ! j = 0 then spos st ! 1 ! j else spos st ! 0 ! j)],
                  lastchange := clk j\<rparr>
          else st)"
  have step: "scan_channel lv clk j st = Some st1"
    unfolding st1_def by (rule scan_channel_Some [OF Cons.prems(1) j])
  have sh1: "shape (spos st1)"
    using Cons.prems(1) by (simp add: st1_def shape_update)
  have rows: "spos st1 ! 0 = spos st ! 0" "spos st1 ! 1 = spos st ! 1"
    by (simp_all add: st1_def)
  have cell: "spos st1 ! 2 ! s = (if s = j \<and> input_differs lv st j then lnot (spos st ! 2 ! s)
      else spos st ! 2 ! s)" for s
    using nth_update_table [OF Cons.prems(1) two j two, of "lnot (spos st ! 2 ! j)" s]
    by (auto simp: st1_def)
  have same: "input_differs lv st1 s = input_differs lv st s" if "s \<in> set js" for s
    using that jn by (auto simp: input_differs_def cell)
  have other: "trace st1 = trace st @ (if input_differs lv st j
      then [EaseTo j (if spos st ! 2 ! j = 0 then spos st ! 1 ! j else spos st ! 0 ! j)] else [])"
    "lastchange st1 = (if input_differs lv st j then clk j else lastchange st)"
    "activeServo st1 = activeServo st" "activePos st1 = activePos st"
    "eeprom st1 = eeprom st" "delayt st1 = delayt st"
    by (simp_all add: st1_def)
  from Cons.IH [OF sh1 dj lt] obtain st' where
    ih: "foreach js (scan_channel lv clk) st1 = Some st'"
     "shape (spos st')" "spos st' ! 0 = spos st1 ! 0" "spos st' ! 1 = spos st1 ! 1"
     "\<forall>s<nservos. spos st' ! 2 ! s =
           (if s \<in> set js \<and> input_differs lv st1 s then lnot (spos st1 ! 2 ! s)
            else spos st1 ! 2 ! s)"
     "trace st' = trace st1 @ concat (map (\<lambda>s. if input_differs lv st1 s
           then [EaseTo s (if spos st1 ! 2 ! s = 0 then spos st1 ! 1 ! s else spos st1 ! 0 ! s)]
           else []) js)"
     "lastchange st' = foldl (\<lambda>lc s. if input_differs lv st1 s then clk s else lc) (lastchange st1) js"
     "activeServo st' = activeServo st1" "activePos st' = activePos st1"
     "eeprom st' = eeprom st1" "delayt st' = delayt st1"
    by blast
  have run: "foreach (j # js) (scan_channel lv clk) st = Some st'"
    by (simp add: step ih(1))
  have cells: "\<forall>s<nservos. spos st' ! 2 ! s =
           (if s \<in> set (j # js) \<and> input_differs lv st s then lnot (spos st ! 2 ! s)
            else spos st ! 2 ! s)"
  proof (intro allI impI)
    fix s assume "s < nservos"
    with ih(5) have "spos st' ! 2 ! s =
           (if s \<in> set js \<and> input_differs lv st1 s then lnot (spos st1 ! 2 ! s)
            else spos st1 ! 2 ! s)" by simp
    then show "spos st' ! 2 ! s =
           (if s \<in> set (j # js) \<and> input_differs lv st s then lnot (spos st ! 2 ! s)
            else spos st ! 2 ! s)"
      using jn same [of s] by (auto simp: cell)
  qed
  have m: "map (\<lambda>s. if input_differs lv st1 s
           then [EaseTo s (if spos st1 ! 2 ! s = 0 then spos st1 ! 1 ! s else spos st1 ! 0 ! s)]
           else []) js
      = map (\<lambda>s. if input_differs lv st s
           then [EaseTo s (if spos st ! 2 ! s = 0 then spos st ! 1 ! s else spos st ! 0 ! s)]
           else []) js"
  proof (rule map_cong [OF refl])
    fix s assume s: "s \<in> set js"
    with jn have "s \<noteq> j" by auto
    then show "(if input_differs lv st1 s
           then [EaseTo s (if spos st1 ! 2 ! s = 0 then spos st1 ! 1 ! s else spos st1 ! 0 ! s)]
           else [])
      = (if input_differs lv st s
           then [EaseTo s (if spos st ! 2 ! s = 0 then spos st ! 1 ! s else spos st ! 0 ! s)]
           else [])"
      using rows by (simp add: same [OF s] cell)
  qed
  have tr: "trace st' = trace st @ concat (map (\<lambda>s. if input_differs lv st s
           then [EaseTo s (if spos st ! 2 ! s = 0 then spos st ! 1 ! s else spos st ! 0 ! s)]
           else []) (j # js))"
    by (simp add: ih(6) m other(1))
  have f: "foldl (\<lambda>lc s. if input_differs lv st1 s then clk s else lc) l js
      = foldl (\<lambda>lc s. if input_differs lv st s then clk s else lc) l js" for l
    by (rule foldl_cong) (simp_all add: same)
  have lc: "lastchange st' =
      foldl (\<lambda>lc s. if input_differs lv st s then clk s else lc) (lastchange st) (j # js)"
    by (simp add: ih(7) f other(2))
  from run ih(2) ih(3,4) rows cells tr lc ih(8-11) other(3-6) show ?case
    by simp
qed

lemma filter_scan_moves:
  assumes "distinct js"
  shows "filter (\<lambda>a. servo_of a = Some s)
       (concat (map (\<lambda>j. if D j then [EaseTo j (f j)] else []) js))
     = (if s \<in> set js \<and> D s then [EaseTo s (f s)] else [])"
  using assms by (induction js) auto

lemma last_differing:
  fixes D :: "nat \<Rightarrow> bool" and c :: "nat \<Rightarrow> u32" and init :: u32
  defines "F \<equiv> \<lambda>n. foldl (\<lambda>lc s. if D s then c s else lc) init [0..<n]"
  shows "((\<forall>j<n. \<not> D j) \<longrightarrow> F n = init)
     \<and> ((\<exists>j<n. D j) \<longrightarrow>
          (\<exists>j<n. D j \<and> F n = c j \<and> (\<forall>k. j < k \<and> k < n \<longrightarrow> \<not> D k)))"
proof (induction n)
  case 0
  then show ?case by (simp add: F_def)
next
  case (Suc n)
  have step: "F (Suc n) = (if D n then c n else F n)"
    by (simp add: F_def)
  show ?case
  proof (cases "D n")
    case True
    then have "D n \<and> F (Suc n) = c n \<and> (\<forall>k. n < k \<and> k < Suc n \<longrightarrow> \<not> D k)"
      by (auto simp: step)
    with True show ?thesis by blast
  next
    case False
    then have eq: "F (Suc n) = F n" by (simp add: step)
    have none: "(\<forall>j<Suc n. \<not> D j) \<longrightarrow> F (Suc n) = init"
      using Suc.IH by (simp add: eq)
    have some: "\<exists>j<Suc n. D j \<and> F (Suc n) = c j \<and> (\<forall>k. j < k \<and> k < Suc n \<longrightarrow> \<not> D k)"
      if "\<exists>j<Suc n. D j"
    proof -
      from that False have "\<exists>j<n. D j" by (metis less_Suc_eq)
      with Suc.IH obtain j where j: "j < n" "D j" "F n = c j" "\<forall>k. j < k \<and> k < n \<longrightarrow> \<not> D k"
        by blast
      have "\<forall>k. j < k \<and> k < Suc n \<longrightarrow> \<not> D k"
        using j(4) False by (auto simp: less_Suc_eq)
      with j eq show ?thesis by (intro exI [of _ j]) simp
    qed
    from none some show ?thesis by blast
  qed
qed

subsection \<open>Every operation keeps the invariant\<close>

lemma controller_inv_editable: "controller_inv st \<Longrightarrow> editable st"
  by (simp add: controller_inv_def editable_def table_inv_def)

lemma controller_invI:
  "editable st \<Longrightarrow> list_all is_slot (spos st ! 2) \<Longrightarrow> controller_inv st"
  by (simp add: controller_inv_def editable_def table_inv_def)

lemma controller_inv_slots: "controller_inv st \<Longrightarrow> list_all is_slot (spos st ! 2)"
  by (simp add: controller_inv_def table_inv_def)

lemma controller_inv_fields:
  "controller_inv (st\<lparr>lastchange := l\<rparr>) = controller_inv st"
  "controller_inv (st\<lparr>delayt := d\<rparr>) = controller_inv st"
  "controller_inv (st\<lparr>trace := tr\<rparr>) = controller_inv st"
  "controller_inv (st\<lparr>eeprom := e\<rparr>) = controller_inv st"
  "controller_inv (delay ms st) = controller_inv st"
  by (simp_all add: controller_inv_def cursor_inv_def delay_def)

lemma is_slot_le: "is_slot p \<longleftrightarrow> p \<le> 1"
proof
  assume "is_slot p"
  then show "p \<le> 1" by (auto simp: is_slot_def)
next
  assume "p \<le> 1"
  then have "unat p \<le> unat (1::u8)" by (simp only: word_le_nat_alt)
  then have "unat p = unat (0::u8) \<or> unat p = unat (1::u8)" by auto
  then show "is_slot p" by (simp only: word_unat_eq_iff [symmetric] is_slot_def)
qed

lemma up_step_inv:
  assumes "controller_inv st"
  shows "\<exists>st'. up_step now st = Some st' \<and> controller_inv st' \<and> lastchange st' = now
     \<and> eeprom st' = eeprom st"
proof -
  from up_step_effect [OF controller_inv_editable [OF assms], of now] obtain st' where
    s: "up_step now st = Some st'" "editable st'" "spos st' ! 2 = spos st ! 2"
      "lastchange st' = now" "eeprom st' = eeprom st"
    by blast
  from s(2,3) controller_inv_slots [OF assms] have "controller_inv st'"
    by (simp add: controller_invI)
  with s show ?thesis by blast
qed

lemma down_step_inv:
  assumes "controller_inv st"
  shows "\<exists>st'. down_step now st = Some st' \<and> controller_inv st' \<and> lastchange st' = now
     \<and> eeprom st' = eeprom st"
proof -
  from down_step_effect [OF controller_inv_editable [OF assms], of now] obtain st' where
    s: "down_step now st = Some st'" "editable st'" "spos st' ! 2 = spos st ! 2"
      "lastchange st' = now" "eeprom st' = eeprom st"
    by blast
  from s(2,3) controller_inv_slots [OF assms] have "controller_inv st'"
    by (simp add: controller_invI)
  with s show ?thesis by blast
qed

lemma nextposn_press_inv:
  assumes "controller_inv st"
  shows "\<exists>st'. nextposn_press now st = Some st' \<and> controller_inv st' \<and> lastchange st' = now
     \<and> eeprom st' = eeprom st"
proof -
  from assms have c: "unat (activeServo st) < nservos" and t: "table_inv (spos st)"
    by (simp_all add: controller_inv_def cursor_inv_def)
  have "(if activePos st + 1 > 1 then 0 else activePos st + 1) \<le> (1::u8)"
    by (simp add: not_less)
  with c t show ?thesis
    by (simp add: nextposn_press_Some [OF c] controller_inv_def cursor_inv_def)
qed

lemma nextservo_press_inv:
  assumes "controller_inv st"
  shows "\<exists>st'. nextservo_press now held st = Some st' \<and> controller_inv st'
     \<and> lastchange st' = now \<and> eeprom st' = eeprom st"
proof -
  from assms have c: "unat (activeServo st) < nservos" and t: "table_inv (spos st)"
    by (simp_all add: controller_inv_def cursor_inv_def)
  define a' where "a' = (if \<exists>t\<in>set held. t - now > 2000 then 0
      else if unat (activeServo st + 1) \<ge> nservos then 0 else activeServo st + 1)"
  have a'_lt: "unat a' < nservos"
  proof (cases "\<exists>t\<in>set held. t - now > 2000")
    case True
    then show ?thesis by (simp add: a'_def nservos_def)
  next
    case False
    with next_servo_short [OF c] show ?thesis
      by (simp add: a'_def nservos_def)
  qed
  from table_inv_slot [OF t a'_lt] have "spos st ! 2 ! unat a' \<le> 1"
    by (simp add: is_slot_le)
  with t a'_lt show ?thesis
    unfolding nextservo_press_Some [OF t c] a'_def [symmetric]
    by (simp add: controller_inv_def cursor_inv_def)
qed

lemma persist_inv:
  assumes "controller_inv st"
  shows "\<exists>st'. persist now st = Some st' \<and> controller_inv st'
     \<and> (st' = st \<or> (lastchange st' = 0 \<and> stored_table st' = spos st'))"
proof (cases "save_due now st")
  case False
  with assms show ?thesis by (simp add: persist_def)
next
  case True
  from assms have t: "table_inv (spos st)" by (simp add: controller_inv_def)
  from True t assms table_inv_shape [OF t] show ?thesis
    by (simp add: persist_def save_Some [OF t] controller_inv_def cursor_inv_def
        stored_table_def EEPROM_get_put nservos_def)
qed

lemma inputScan_idle:
  assumes "shape (spos st)" and "\<forall>j<nservos. \<not> input_differs lv st j"
  shows "inputScan lv clk st = Some st"
proof -
  have "foreach js (scan_channel lv clk) st = Some st" if "\<forall>j\<in>set js. j < nservos" for js
    using that
  proof (induction js)
    case Nil
    then show ?case by simp
  next
    case (Cons j js)
    then have "j < nservos" by simp
    with assms(2) have "scan_channel lv clk j st = Some st"
      by (simp add: scan_channel_Some [OF assms(1)])
    with Cons show ?case by simp
  qed
  then show ?thesis by (simp add: inputScan_def)
qed

lemma lnot_is_slot: "is_slot (lnot x)"
  by (simp add: lnot_def is_slot_def)

lemma inputScan_inv:
  assumes "controller_inv st"
  shows "\<exists>st'. inputScan lv clk st = Some st' \<and> controller_inv st'
     \<and> eeprom st' = eeprom st
     \<and> (st' = st \<or> (\<exists>j<nservos. lastchange st' = clk j))"
proof -
  from assms have t: "table_inv (spos st)" and c: "cursor_inv st"
    by (simp_all add: controller_inv_def)
  have sh: "shape (spos st)" by (rule table_inv_shape [OF t])
  have dist: "distinct [0..<nservos]" and lt: "\<forall>j\<in>set [0..<nservos]. j < nservos"
    by simp_all
  let ?D = "input_differs lv st"
  from foreach_scan [OF sh dist lt, of lv clk] obtain st' where
    r: "inputScan lv clk st = Some st'" "shape (spos st')"
     "spos st' ! 0 = spos st ! 0" "spos st' ! 1 = spos st ! 1"
     "\<forall>s<nservos. spos st' ! 2 ! s =
           (if s \<in> set [0..<nservos] \<and> ?D s then lnot (spos st ! 2 ! s) else spos st ! 2 ! s)"
     "lastchange st' = foldl (\<lambda>lc s. if ?D s then clk s else lc) (lastchange st) [0..<nservos]"
     "activeServo st' = activeServo st" "activePos st' = activePos st"
     "eeprom st' = eeprom st"
    unfolding inputScan_def by blast
  have slots: "list_all is_slot (spos st' ! 2)"
    unfolding list_all_length
  proof (intro allI impI)
    fix s assume "s < length (spos st' ! 2)"
    with r(2) have s: "s < nservos" by (simp add: shape_def)
    from table_inv_slot [OF t s] r(5) s show "is_slot (spos st' ! 2 ! s)"
      by (simp add: lnot_is_slot)
  qed
  from t r(2,3,4) slots have "table_inv (spos st')"
    by (simp add: table_inv_def positions_in_range_def)
  with c r(7,8) have inv: "controller_inv st'"
    by (simp add: controller_inv_def cursor_inv_def)
  have "st' = st \<or> (\<exists>j<nservos. lastchange st' = clk j)"
  proof (cases "\<exists>j<nservos. ?D j")
    case True
    with last_differing [where n = nservos and D = ?D and init = "lastchange st" and c = clk]
    show ?thesis unfolding r(6) by blast
  next
    case False
    then have "inputScan lv clk st = Some st" by (simp add: inputScan_idle [OF sh])
    with r(1) show ?thesis by simp
  qed
  with r(1,9) inv show ?thesis by blast
qed

lemma while_held_inv:
  assumes step: "\<And>now st. now \<in> set ts \<Longrightarrow> I st \<Longrightarrow> \<exists>st'. body now st = Some st' \<and> I st'"
    and "I st"
  shows "\<exists>st'. while_held ts body st = Some st' \<and> I st'"
  using assms
proof (induction ts arbitrary: st)
  case Nil
  then show ?case by simp
next
  case (Cons t ts)
  from Cons.prems(1) [of t st] Cons.prems(2) obtain st1 where
    s: "body t st = Some st1" "I st1" by auto
  have "\<exists>st'. while_held ts body st1 = Some st' \<and> I st'"
  proof (rule Cons.IH)
    show "\<exists>st'. body now st = Some st' \<and> I st'" if "now \<in> set ts" "I st" for now st
      using Cons.prems(1) [of now st] that by simp
    show "I st1" by (rule s(2))
  qed
  with s(1) show ?case by simp
qed

lemma adjust_inv:
  assumes "controller_inv st"
  shows "\<exists>st'. adjust ups downs st = Some st' \<and> controller_inv st'"
proof -
  have "controller_inv (st\<lparr>delayt := 200\<rparr>)"
    using assms by (simp add: controller_inv_fields)
  from while_held_inv [where I = controller_inv and body = up_step and ts = ups, OF _ this]
    up_step_inv
  obtain st1 where u: "while_held ups up_step (st\<lparr>delayt := 200\<rparr>) = Some st1"
    "controller_inv st1" by blast
  from while_held_inv [where I = controller_inv and body = down_step and ts = downs, OF _ u(2)]
    down_step_inv
  obtain st2 where d: "while_held downs down_step st1 = Some st2" "controller_inv st2"
    by blast
  from u(1) d show ?thesis by (simp add: adjust_def)
qed

lemma loop_inv:
  assumes "controller_inv st"
  shows "\<exists>st'. loop inp st = Some st' \<and> controller_inv st'"
proof -
  from adjust_inv [OF assms, of "up_held inp" "down_held inp"] obtain st2 where
    s2: "adjust (up_held inp) (down_held inp) st = Some st2" "controller_inv st2" by blast
  have "\<exists>st3. (case nextservo_at inp of None \<Rightarrow> Some st2
            | Some (now, held) \<Rightarrow> nextservo_press now held st2) = Some st3 \<and> controller_inv st3"
  proof (cases "nextservo_at inp")
    case None
    with s2(2) show ?thesis by simp
  next
    case (Some p)
    obtain now held where "p = (now, held)" by (cases p)
    with Some nextservo_press_inv [OF s2(2), of now held] show ?thesis by auto
  qed
  then obtain st3 where s3: "(case nextservo_at inp of None \<Rightarrow> Some st2
            | Some (now, held) \<Rightarrow> nextservo_press now held st2) = Some st3" "controller_inv st3"
    by blast
  have "\<exists>st4. (case nextposn_at inp of None \<Rightarrow> Some st3
            | Some now \<Rightarrow> nextposn_press now st3) = Some st4 \<and> controller_inv st4"
  proof (cases "nextposn_at inp")
    case None
    with s3(2) show ?thesis by simp
  next
    case (Some now)
    with nextposn_press_inv [OF s3(2), of now] show ?thesis by auto
  qed
  then obtain st4 where s4: "(case nextposn_at inp of None \<Rightarrow> Some st3
            | Some now \<Rightarrow> nextposn_press now st3) = Some st4" "controller_inv st4"
    by blast
  from persist_inv [OF s4(2), of "save_clock inp"] obtain st5 where
    s5: "persist (save_clock inp) st4 = Some st5" "controller_inv st5" by blast
  from inputScan_inv [OF s5(2), of "levels inp" "scan_clock inp"] obtain st6 where
    s6: "inputScan (levels inp) (scan_clock inp) st5 = Some st6" "controller_inv st6" by blast
  have "loop inp st = Some (delay 100 st6)"
    by (simp add: loop_def s2(1) s3(1) s4(1) s5(1) s6(1))
  with s6(2) show ?thesis by (simp add: controller_inv_fields)
qed

lemma power_on_marked:
  assumes "e 0 = 0xA5"
  shows "init_eeprom (delay 2000 (power_on e)) = Some (delay 2000 (power_on e))"
  using assms by (simp add: init_eeprom_def power_on_def delay_def INIT_def)

lemma setup_from_table:
  assumes "init_eeprom (delay 2000 (power_on e)) = Some st1" and "table_inv (stored_table st1)"
    and "activeServo st1 = 0" and "activePos st1 = 0" and "lastchange st1 = 0"
  shows "\<exists>st. setup_fn (power_on e) = Some st \<and> controller_inv st
     \<and> stored_table st = spos st \<and> lastchange st = 0 \<and> eeprom st = eeprom st1"
proof -
  let ?st = "retrieve st1"
  have t: "table_inv (spos ?st)"
    using assms(2) by (simp add: retrieve_def stored_table_def)
  have c: "cursor_inv ?st"
    using assms(3,4) by (simp add: retrieve_def cursor_inv_def nservos_def)
  define st' where "st' = ?st\<lparr>trace := trace ?st @
        map (\<lambda>i. EaseTo i (spos ?st ! unat (spos ?st ! 2 ! i) ! i)) [0..<nservos]\<rparr>"
  have run: "setup_fn (power_on e) = Some st'"
    unfolding st'_def by (simp add: setup_fn_def assms(1) ease_all_saved [OF t])
  have f: "spos st' = spos ?st" "activeServo st' = activeServo ?st" "activePos st' = activePos ?st"
    "eeprom st' = eeprom st1" "lastchange st' = 0" "spos ?st = stored_table st1"
    using assms(5) by (simp_all add: st'_def retrieve_def stored_table_def)
  from t c f have "controller_inv st'"
    by (simp add: controller_inv_def cursor_inv_def)
  moreover have "stored_table st' = spos st'"
    by (simp add: f stored_table_def [of st'] stored_table_def [of st1])
  ultimately show ?thesis using run f(4,5) by blast
qed

lemma setup_inv:
  assumes "e 0 \<noteq> 0xA5 \<or> table_inv (EEPROM_get 1 e)"
  shows "\<exists>st. setup_fn (power_on e) = Some st \<and> controller_inv st
     \<and> stored_table st = spos st \<and> lastchange st = 0"
proof (cases "e 0 = 0xA5")
  case True
  with assms have t: "table_inv (EEPROM_get 1 e)" by simp
  have "\<exists>st. setup_fn (power_on e) = Some st \<and> controller_inv st
     \<and> stored_table st = spos st \<and> lastchange st = 0 \<and> eeprom st = eeprom (delay 2000 (power_on e))"
    by (rule setup_from_table [OF power_on_marked [of e, OF True]])
       (use t in \<open>simp_all add: stored_table_def power_on_def delay_def\<close>)
  then show ?thesis by blast
next
  case False
  let ?d = "[replicate nservos 130, replicate nservos 50, replicate nservos (0::u8)]"
  let ?st1 = "(delay 2000 (power_on e))\<lparr>spos := ?d, eeprom := EEPROM_put 1 ?d (e(0 := 0xA5))\<rparr>"
  have "stored_table ?st1 = ?d"
    using table_inv_shape [OF table_inv_defaults]
    by (simp add: stored_table_def EEPROM_get_put)
  then have t: "table_inv (stored_table ?st1)"
    by (simp only: table_inv_defaults)
  have "\<exists>st. setup_fn (power_on e) = Some st \<and> controller_inv st
     \<and> stored_table st = spos st \<and> lastchange st = 0 \<and> eeprom st = eeprom ?st1"
    by (rule setup_from_table [OF init_eeprom_bad_marker [of e, OF False] t])
       (simp_all add: power_on_def delay_def)
  then show ?thesis by blast
qed

lemma setup_stale: "setup_fn (power_on stale_eeprom) = Some stale_state"
proof -
  let ?T = "[[200, 0, 0, 0, 0, 0, 0, 0], [0, 0, 0, 0, 0, 0, 0, 0], [0, 0, 0, 0, 0, 0, 0, 0::u8]]"
  let ?st0 = "(delay 2000 (power_on stale_eeprom))\<lparr>spos := ?T\<rparr>"
  have m: "stale_eeprom 0 = 0xA5" by (simp add: stale_eeprom_def)
  have g: "EEPROM_get 1 stale_eeprom = ?T"
    by (simp add: EEPROM_get_def stale_eeprom_def nservos_def upt_rec)
  have r: "retrieve (delay 2000 (power_on stale_eeprom)) = ?st0"
    using g by (simp add: retrieve_def power_on_def delay_def)
  have pre: "\<forall>i\<in>set [0..<nservos]. i < nservos \<and> unat (spos ?st0 ! 2 ! i) < 3"
    by (simp add: channels_unfold) (simp add: nservos_def)
  have "foreach [0..<nservos] ease_to_saved ?st0 = Some stale_state"
    unfolding foreach_ease_to_saved [OF pre]
    by (simp add: channels_unfold stale_state_def power_on_def delay_def)
  then show ?thesis
    by (simp add: setup_fn_def power_on_marked [of stale_eeprom, OF m] r)
qed

lemma stale_not_inv: "\<not> table_inv (spos stale_state)"
proof
  assume "table_inv (spos stale_state)"
  then have "positions_in_range (spos stale_state)" by (simp add: table_inv_def)
  moreover have "(0::nat) < 2" "0 < nservos" by (simp_all add: nservos_def)
  ultimately have "in_range (spos stale_state ! 0 ! 0)" by (rule positions_nth)
  then show False
    by (simp add: stale_state_def in_range_def MAXPOSN_def)
qed

subsection \<open>The EEPROM and the pending-change marker\<close>

lemma in_sync_iff: "in_sync st \<longleftrightarrow> (lastchange st = 0 \<longrightarrow> stored_table st = spos st)"
  by (simp add: in_sync_def DirtyMarker_def)

lemma in_sync_stamped: "lastchange st \<noteq> 0 \<Longrightarrow> in_sync st"
  by (simp add: in_sync_iff)

lemma in_sync_fields:
  "in_sync (st\<lparr>delayt := d\<rparr>) = in_sync st"
  "in_sync (delay ms st) = in_sync st"
  by (simp_all add: in_sync_iff stored_table_def delay_def)

lemma adjust_sync:
  assumes "controller_inv st" and "in_sync st"
    and "list_all (\<lambda>t. t \<noteq> 0) ups" and "list_all (\<lambda>t. t \<noteq> 0) downs"
  shows "\<exists>st'. adjust ups downs st = Some st' \<and> controller_inv st' \<and> in_sync st'"
proof -
  let ?J = "\<lambda>st. controller_inv st \<and> in_sync st"
  have up: "\<exists>st'. up_step now st = Some st' \<and> ?J st'" if "now \<in> set ups" "?J st" for now st
  proof -
    from that(1) assms(3) have "now \<noteq> 0" by (auto simp: list_all_iff)
    with up_step_inv [of st now] that(2) show ?thesis
      by (auto intro: in_sync_stamped)
  qed
  have down: "\<exists>st'. down_step now st = Some st' \<and> ?J st'" if "now \<in> set downs" "?J st" for now st
  proof -
    from that(1) assms(4) have "now \<noteq> 0" by (auto simp: list_all_iff)
    with down_step_inv [of st now] that(2) show ?thesis
      by (auto intro: in_sync_stamped)
  qed
  have "?J (st\<lparr>delayt := 200\<rparr>)"
    using assms(1,2) by (simp add: controller_inv_fields in_sync_fields)
  from while_held_inv [where I = ?J and body = up_step and ts = ups, OF up this]
  obtain st1 where u: "while_held ups up_step (st\<lparr>delayt := 200\<rparr>) = Some st1" "?J st1"
    by blast
  from while_held_inv [where I = ?J and body = down_step and ts = downs, OF down u(2)]
  obtain st2 where d: "while_held downs down_step st1 = Some st2" "?J st2"
    by blast
  from u(1) d show ?thesis by (simp add: adjust_def)
qed

lemma loop_sync:
  assumes "controller_inv st" and "in_sync st" and "stamps_nonzero inp"
  shows "\<exists>st'. loop inp st = Some st' \<and> controller_inv st' \<and> in_sync st'"
proof -
  from assms(3) have nz: "list_all (\<lambda>t. t \<noteq> 0) (up_held inp)"
      "list_all (\<lambda>t. t \<noteq> 0) (down_held inp)"
      "case nextservo_at inp of None \<Rightarrow> True | Some (t, held) \<Rightarrow> t \<noteq> 0"
      "case nextposn_at inp of None \<Rightarrow> True | Some t \<Rightarrow> t \<noteq> 0"
      "list_all (\<lambda>s. scan_clock inp s \<noteq> 0) [0..<nservos]"
    by (simp_all add: stamps_nonzero_def)
  from adjust_sync [OF assms(1,2) nz(1,2)] obtain st2 where
    s2: "adjust (up_held inp) (down_held inp) st = Some st2" "controller_inv st2" "in_sync st2"
    by blast
  have "\<exists>st3. (case nextservo_at inp of None \<Rightarrow> Some st2
            | Some (now, held) \<Rightarrow> nextservo_press now held st2) = Some st3
          \<and> controller_inv st3 \<and> in_sync st3"
  proof (cases "nextservo_at inp")
    case None
    with s2(2,3) show ?thesis by simp
  next
    case (Some p)
    obtain now held where p: "p = (now, held)" by (cases p)
    with Some nz(3) have "now \<noteq> 0" by simp
    with Some p nextservo_press_inv [OF s2(2), of now held] show ?thesis
      by (auto intro: in_sync_stamped)
  qed
  then obtain st3 where s3: "(case nextservo_at inp of None \<Rightarrow> Some st2
            | Some (now, held) \<Rightarrow> nextservo_press now held st2) = Some st3"
      "controller_inv st3" "in_sync st3"
    by blast
  have "\<exists>st4. (case nextposn_at inp of None \<Rightarrow> Some st3
            | Some now \<Rightarrow> nextposn_press now st3) = Some st4
          \<and> controller_inv st4 \<and> in_sync st4"
  proof (cases "nextposn_at inp")
    case None
    with s3(2,3) show ?thesis by simp
  next
    case (Some now)
    with nz(4) have "now \<noteq> 0" by simp
    with Some nextposn_press_inv [OF s3(2), of now] show ?thesis
      by (auto intro: in_sync_stamped)
  qed
  then obtain st4 where s4: "(case nextposn_at inp of None \<Rightarrow> Some st3
            | Some now \<Rightarrow> nextposn_press now st3) = Some st4"
      "controller_inv st4" "in_sync st4"
    by blast
  from persist_inv [OF s4(2), of "save_clock inp"] obtain st5 where
    s5: "persist (save_clock inp) st4 = Some st5" "controller_inv st5"
      "st5 = st4 \<or> (lastchange st5 = 0 \<and> stored_table st5 = spos st5)"
    by blast
  from s5(3) s4(3) have y5: "in_sync st5" by (auto simp: in_sync_iff)
  from inputScan_inv [OF s5(2), of "levels inp" "scan_clock inp"] obtain st6 where
    s6: "inputScan (levels inp) (scan_clock inp) st5 = Some st6" "controller_inv st6"
      "st6 = st5 \<or> (\<exists>j<nservos. lastchange st6 = scan_clock inp j)"
    by blast
  have y6: "in_sync st6"
  proof (cases "st6 = st5")
    case True
    with y5 show ?thesis by simp
  next
    case False
    with s6(3) obtain j where j: "j < nservos" "lastchange st6 = scan_clock inp j" by blast
    from nz(5) j(1) have "scan_clock inp j \<noteq> 0" by (simp add: list_all_iff)
    with j(2) show ?thesis by (simp add: in_sync_stamped)
  qed
  have "loop inp st = Some (delay 100 st6)"
    by (simp add: loop_def s2(1) s3(1) s4(1) s5(1) s6(1))
  with s6(2) y6 show ?thesis by (simp add: controller_inv_fields in_sync_fields)
qed

lemma loops_sync:
  assumes "controller_inv st" and "in_sync st" and "list_all stamps_nonzero inps"
  shows "\<exists>st'. loops inps st = Some st' \<and> controller_inv st' \<and> in_sync st'"
  using assms
proof (induction inps arbitrary: st)
  case Nil
  then show ?case by simp
next
  case (Cons inp inps)
  from Cons.prems(3) have nz: "stamps_nonzero inp" "list_all stamps_nonzero inps" by simp_all
  from loop_sync [OF Cons.prems(1,2) nz(1)] obtain st1 where
    s: "loop inp st = Some st1" "controller_inv st1" "in_sync st1" by blast
  from Cons.IH [OF s(2,3) nz(2)] s(1) show ?case by simp
qed

subsection \<open>Two concrete runs\<close>

lemma up_factory_at:
  "up_step t (factory\<lparr>delayt := 200\<rparr>) =
     Some (factory\<lparr>spos := [(replicate nservos 130)[0 := 131], replicate nservos 50,
                             replicate nservos 0],
                    lastchange := t, delayt := 190,
                    trace := trace factory @ [WriteNow 0 131, Wait 190]\<rparr>)"
proof -
  let ?s = "factory\<lparr>delayt := 200\<rparr>"
  have sh: "shape (spos ?s)"
    using editable_factory by (simp add: editable_def positions_in_range_def)
  have f: "activePos factory = 0" "activeServo factory = 0"
     "spos factory = [replicate nservos 130, replicate nservos 50, replicate nservos 0]"
    by (simp_all add: factory_def)
  have n: "0 < nservos" by (simp add: nservos_def)
  have r: "unat (activePos ?s) < 3" and c: "unat (activeServo ?s) < nservos"
    by (simp_all add: f n)
  have nd: "next_delay 200 = 190" by (simp add: next_delay_def)
  show ?thesis
    unfolding up_step_Some [OF sh r c]
    by (simp add: f n MAXPOSN_def nd)
qed

lemma low_inputs_idle:
  assumes "shape (spos st)" and "spos st ! 2 = replicate nservos 0"
  shows "inputScan (\<lambda>s. False) clk st = Some st"
proof (rule inputScan_idle [OF assms(1)])
  show "\<forall>j<nservos. \<not> input_differs (\<lambda>s. False) st j"
    by (simp add: input_differs_def digitalRead_def assms(2))
qed

lemma loop_wrap_pass: "loop wrap_pass factory = Some wrapped"
proof -
  define s2 where "s2 = factory\<lparr>spos := [(replicate nservos 130)[0 := 131],
        replicate nservos 50, replicate nservos 0],
      lastchange := 4294967106, delayt := 190,
      trace := trace factory @ [WriteNow 0 131, Wait 190]\<rparr>"
  define s4 where "s4 = s2\<lparr>lastchange := 0, activePos := 1,
       trace := trace s2 @ [EaseTo 0 50, Wait 200]\<rparr>"
  have a: "adjust (up_held wrap_pass) (down_held wrap_pass) factory = Some s2"
    by (simp add: adjust_def wrap_pass_def up_factory_at s2_def)
  have c: "unat (activeServo s2) < nservos" by (simp add: s2_def factory_def nservos_def)
  have p: "nextposn_press 0 s2 = Some s4"
    unfolding nextposn_press_Some [OF c]
    by (simp add: s4_def s2_def factory_def) (simp add: nservos_def)
  have sv: "persist 200 s4 = Some s4"
    by (simp add: persist_def save_due_def s4_def)
  have sh: "shape (spos s4)"
    using table_inv_shape [OF edited_table_inv] by (simp add: edited_def s4_def s2_def)
  have i: "inputScan (\<lambda>s. False) (\<lambda>s. 200) s4 = Some s4"
    by (rule low_inputs_idle [OF sh]) (simp add: s4_def s2_def)
  have n: "nextservo_at wrap_pass = None" "nextposn_at wrap_pass = Some 0"
    "save_clock wrap_pass = 200" "levels wrap_pass = (\<lambda>s. False)"
    "scan_clock wrap_pass = (\<lambda>s. 200)"
    by (simp_all add: wrap_pass_def)
  have "loop wrap_pass factory = Some (delay 100 s4)"
    by (simp add: loop_def a n p sv i)
  also have "delay 100 s4 = wrapped"
    by (simp add: delay_def wrapped_def s4_def s2_def)
  finally show ?thesis .
qed

lemma loop_edit_pass:
  "loop edit_pass factory = Some (delay 100 (edited\<lparr>delayt := 190,
       trace := trace factory @ [WriteNow 0 131, Wait 190]\<rparr>))"
proof -
  define s2 where "s2 = edited\<lparr>delayt := 190,
      trace := trace factory @ [WriteNow 0 131, Wait 190]\<rparr>"
  have a: "adjust (up_held edit_pass) (down_held edit_pass) factory = Some s2"
    by (simp add: adjust_def edit_pass_def up_factory_at edited_def s2_def)
  have sv: "persist 5190 s2 = Some s2"
    by (simp add: persist_def save_due_def edited_def s2_def)
  have sh: "shape (spos s2)"
    using table_inv_shape [OF edited_table_inv] by (simp add: s2_def)
  have i: "inputScan (\<lambda>s. False) (\<lambda>s. 5190) s2 = Some s2"
    by (rule low_inputs_idle [OF sh]) (simp add: edited_def s2_def)
  have n: "nextservo_at edit_pass = None" "nextposn_at edit_pass = None"
    "save_clock edit_pass = 5190" "levels edit_pass = (\<lambda>s. False)"
    "scan_clock edit_pass = (\<lambda>s. 5190)"
    by (simp_all add: edit_pass_def)
  have "loop edit_pass factory = Some (delay 100 s2)"
    by (simp add: loop_def a n sv i)
  then show ?thesis by (simp only: s2_def)
qed

lemma loop_save_pass:
  assumes "table_inv (spos st)" and "spos st ! 2 = replicate nservos 0" and "lastchange st = 5000"
  shows "\<exists>st'. loop save_pass st = Some st' \<and> lastchange st' = 0 \<and> spos st' = spos st"
proof -
  define s2 where "s2 = st\<lparr>delayt := 200\<rparr>"
  have a: "adjust (up_held save_pass) (down_held save_pass) st = Some s2"
    by (simp add: adjust_def save_pass_def s2_def)
  have t: "table_inv (spos s2)" using assms(1) by (simp add: s2_def)
  have due: "save_due 30000 s2" by (simp add: save_due_def assms(3) s2_def)
  define s5 where "s5 = s2\<lparr>eeprom := EEPROM_put 1 (spos s2) (eeprom s2), lastchange := 0,
       activeServo := 0,
       trace := trace s2 @
         map (\<lambda>i. EaseTo i (spos s2 ! unat (spos s2 ! 2 ! i) ! i)) [0..<nservos]\<rparr>"
  have sv: "persist 30000 s2 = Some s5"
    unfolding s5_def using due by (simp add: persist_def save_Some [OF t])
  have f: "spos s5 = spos st" "lastchange s5 = 0" by (simp_all add: s5_def s2_def)
  have sh: "shape (spos s5)" using table_inv_shape [OF assms(1)] by (simp add: f)
  have i: "inputScan (\<lambda>s. False) (\<lambda>s. 30000) s5 = Some s5"
    by (rule low_inputs_idle [OF sh]) (simp add: f assms(2))
  have n: "nextservo_at save_pass = None" "nextposn_at save_pass = None"
    "save_clock save_pass = 30000" "levels save_pass = (\<lambda>s. False)"
    "scan_clock save_pass = (\<lambda>s. 30000)"
    by (simp_all add: save_pass_def)
  have "loop save_pass st = Some (delay 100 s5)"
    by (simp add: loop_def a n sv i)
  with f show ?thesis by (simp add: delay_def)
qed

lemma run_edit_save:
  "\<exists>st. run (\<lambda>a. 0xFF) [edit_pass, save_pass] = Some st \<and> lastchange st = 0
     \<and> spos st = spos edited"
proof -
  define s1 where "s1 = delay 100 (edited\<lparr>delayt := 190,
       trace := trace factory @ [WriteNow 0 131, Wait 190]\<rparr>)"
  have s: "spos s1 = spos edited" "lastchange s1 = 5000"
    by (simp_all add: s1_def delay_def edited_def)
  have l1: "loop edit_pass factory = Some s1"
    unfolding s1_def by (rule loop_edit_pass)
  have "table_inv (spos s1)" by (simp add: s(1) edited_table_inv)
  moreover have "spos s1 ! 2 = replicate nservos 0" by (simp add: s(1)) (simp add: edited_def)
  ultimately obtain st' where
    l2: "loop save_pass s1 = Some st'" "lastchange st' = 0" "spos st' = spos s1"
    using loop_save_pass [OF _ _ s(2)] by blast
  have "run (\<lambda>a. 0xFF) [edit_pass, save_pass] = Some st'"
    by (simp add: run_def setup_blank l1 l2(1))
  with l2(2,3) s(1) show ?thesis by simp
qed

lemma list_all_const: "P \<Longrightarrow> list_all (\<lambda>x. P) xs"
  by (induction xs) simp_all

lemma stamps_edit_pass: "stamps_nonzero edit_pass"
proof -
  have "list_all (\<lambda>s::nat. (5190::u32) \<noteq> 0) [0..<nservos]"
    by (rule list_all_const) simp
  then show ?thesis
    by (simp add: stamps_nonzero_def edit_pass_def)
qed

lemma stamps_save_pass: "stamps_nonzero save_pass"
proof -
  have "list_all (\<lambda>s::nat. (30000::u32) \<noteq> 0) [0..<nservos]"
    by (rule list_all_const) simp
  then show ?thesis
    by (simp add: stamps_nonzero_def save_pass_def)
qed

subsection \<open>Two concrete scans\<close>

lemma scan_edited_at_zero:
  "inputScan only_input_3 clock_at_zero edited = Some scanned_at_zero"
proof -
  have she: "shape (spos edited)" by (rule table_inv_shape [OF edited_table_inv])
  have shs: "shape (spos scanned_at_zero)"
    by (simp add: scanned_at_zero_def shape_def nservos_def)
  have n: "0 < nservos" "1 < nservos" "2 < nservos" "3 < nservos" "4 < nservos" "5 < nservos"
    "6 < nservos" "7 < nservos"
    by (simp_all add: nservos_def)
  have de: "input_differs only_input_3 edited j \<longleftrightarrow> j = 3" if "j < nservos" for j
    using that by (simp add: input_differs_def digitalRead_def only_input_3_def edited_def)
  have ds: "\<not> input_differs only_input_3 scanned_at_zero j" if "j < nservos" for j
    using that
    by (simp add: input_differs_def digitalRead_def only_input_3_def scanned_at_zero_def
        nth_list_update)
  have idle_e: "scan_channel only_input_3 clock_at_zero j edited = Some edited"
    if "j < nservos" "j \<noteq> 3" for j
    using that by (simp add: scan_channel_Some [OF she] de)
  have idle_s: "scan_channel only_input_3 clock_at_zero j scanned_at_zero = Some scanned_at_zero"
    if "j < nservos" for j
    using that by (simp add: scan_channel_Some [OF shs] ds)
  have flip: "scan_channel only_input_3 clock_at_zero 3 edited = Some scanned_at_zero"
    unfolding scan_channel_Some [OF she n(4)]
    by (simp add: de n scanned_at_zero_def clock_at_zero_def lnot_def)
       (simp add: edited_def nservos_def)
  note before = idle_e [of 0] idle_e [of 1] idle_e [of 2]
  note after = idle_s [of 4] idle_s [of 5] idle_s [of 6] idle_s [of 7]
  from before flip after n show ?thesis
    by (simp add: inputScan_def channels_unfold)
qed

section \<open>The claims\<close>

subsection \<open>Claim C1\<close>




subsection \<open>Claim C2\<close>

text \<open>
  Claim C2. Start from a table of the declared shape whose first and second positions all
  lie between \<open>MINPOSN\<close> and \<open>MAXPOSN\<close>, with the cursor on any servo and either
  slot. Then every sequence of repeats of the up and down buttons runs through without an
  out-of-bounds access and ends with all positions still in range. A repeat of the up
  button on a value that is already \<open>MAXPOSN\<close>, and a repeat of the down button on a
  value that is already \<open>MINPOSN\<close>, leave the table as it is.
\<close>

theorem adjust_events_in_range:
  assumes "positions_in_range (spos st)" and "cursor_inv st"
  shows "(\<exists>st'. adjust_events evs st = Some st' \<and> positions_in_range (spos st'))
     \<and> (uint (spos st ! unat (activePos st) ! unat (activeServo st)) = MAXPOSN \<longrightarrow>
          (\<exists>st'. up_step now st = Some st' \<and> spos st' = spos st))
     \<and> (uint (spos st ! unat (activePos st) ! unat (activeServo st)) = MINPOSN \<longrightarrow>
          (\<exists>st'. down_step now st = Some st' \<and> spos st' = spos st))"
proof -
  have e: "editable st" using assms by (simp add: editable_def)
  from cursor_inv_unat [OF assms(2)] have r: "unat (activePos st) < 3"
    and c: "unat (activeServo st) < nservos" by simp_all
  have sh: "shape (spos st)" using assms(1) by (simp add: positions_in_range_def)
  from adjust_events_editable [OF e, of evs]
  have seq: "\<exists>st'. adjust_events evs st = Some st' \<and> positions_in_range (spos st')"
    by (auto simp: editable_def)
  have top: "\<exists>st'. up_step now st = Some st' \<and> spos st' = spos st"
    if "uint (spos st ! unat (activePos st) ! unat (activeServo st)) = MAXPOSN"
    using that by (simp add: up_step_Some [OF sh r c])
  have bottom: "\<exists>st'. down_step now st = Some st' \<and> spos st' = spos st"
    if "uint (spos st ! unat (activePos st) ! unat (activeServo st)) = MINPOSN"
    using that by (simp add: down_step_Some [OF sh r c])
  from seq top bottom show ?thesis by blast
qed

theorem adjust_events_in_range_witness:
  "(\<exists>st'. adjust_events [Increase 5000, Increase 5190, Decrease 6000] at_limits = Some st'
      \<and> positions_in_range (spos st'))
   \<and> (\<exists>st'. up_step 5000 at_limits = Some st' \<and> spos st' = spos at_limits)
   \<and> (\<exists>st'. down_step 5000 (at_limits\<lparr>activePos := 1\<rparr>) = Some st'
         \<and> spos st' = spos (at_limits\<lparr>activePos := 1\<rparr>))"
proof -
  have h0: "positions_in_range (spos at_limits)" "cursor_inv at_limits"
    and h1: "positions_in_range (spos (at_limits\<lparr>activePos := 1\<rparr>))"
      "cursor_inv (at_limits\<lparr>activePos := 1\<rparr>)"
    using editable_at_limits by (simp_all add: editable_def)
  have v0: "uint (spos at_limits ! unat (activePos at_limits) ! unat (activeServo at_limits)) = MAXPOSN"
    by (simp add: at_limits_def factory_def nservos_def MAXPOSN_def)
  have v1: "uint (spos (at_limits\<lparr>activePos := 1\<rparr>) ! unat (activePos (at_limits\<lparr>activePos := 1\<rparr>))
      ! unat (activeServo (at_limits\<lparr>activePos := 1\<rparr>))) = MINPOSN"
    by (simp add: at_limits_def factory_def nservos_def MINPOSN_def)
  from adjust_events_in_range [OF h0, of "[Increase 5000, Increase 5190, Decrease 6000]" 5000] v0
  have a: "(\<exists>st'. adjust_events [Increase 5000, Increase 5190, Decrease 6000] at_limits = Some st'
      \<and> positions_in_range (spos st'))
   \<and> (\<exists>st'. up_step 5000 at_limits = Some st' \<and> spos st' = spos at_limits)"
    by blast
  from adjust_events_in_range [OF h1, of "[]" 5000] v1
  have b: "\<exists>st'. down_step 5000 (at_limits\<lparr>activePos := 1\<rparr>) = Some st'
         \<and> spos st' = spos (at_limits\<lparr>activePos := 1\<rparr>)"
    by blast
  from a b show ?thesis by blast
qed

subsection \<open>Claim C3\<close>

text \<open>
  Claim C3, as stated, has the tick set DirtyMarker to the current time. The sketch writes
  the clock value into \<open>lastchange\<close>, where 0 means that nothing is pending. In state
  \<open>edited\<close> a change is pending since 5000; a call of \<open>inputScan\<close> that finds input 3
  changed while the clock reads 0 flips the entry of servo 3, eases the servo, and ends
  with no change marked as pending.
\<close>

theorem inputScan_at_clock_zero_counterexample:
  "DirtyMarker edited = Some 5000 \<and> input_differs only_input_3 edited 3
   \<and> inputScan only_input_3 clock_at_zero edited = Some scanned_at_zero
   \<and> clock_at_zero 3 = 0 \<and> DirtyMarker scanned_at_zero = None"
  by (simp add: scan_edited_at_zero DirtyMarker_def input_differs_def digitalRead_def
      only_input_3_def clock_at_zero_def scanned_at_zero_def)
     (simp add: edited_def nservos_def)

text \<open>
  Claim C3, amended. Let the table have its declared shape and let \<open>s\<close> be a channel. One
  call of \<open>inputScan\<close> completes and leaves the stored positions (rows 0 and 1) alone, and:
  if the input of \<open>s\<close> differs from the current position recorded for \<open>s\<close>, that entry
  ends as 1 if it was 0 and as 0 otherwise; exactly one action of the call addresses servo
  \<open>s\<close>, namely an eased move to the position stored for the new entry (the second
  position if the entry was 0, the first otherwise); and \<open>lastchange\<close> ends as the clock
  value read at the last channel whose input differed, so that, when that value is not 0,
  DirtyMarker is that time (with a clock that does not advance during the scan: the time
  of the tick);
  if the input of \<open>s\<close> matches, the three entries of \<open>s\<close> are unchanged and no action
  addresses servo \<open>s\<close>; if every input matches, the state is unchanged.
\<close>

theorem inputScan_channel:
  assumes "shape (spos st)" and "s < nservos"
  shows "\<exists>st' new. inputScan lv clk st = Some st' \<and> trace st' = trace st @ new
    \<and> spos st' ! 0 = spos st ! 0 \<and> spos st' ! 1 = spos st ! 1
    \<and> (input_differs lv st s \<longrightarrow>
          spos st' ! 2 ! s = (if spos st ! 2 ! s = 0 then 1 else 0)
        \<and> filter (\<lambda>a. servo_of a = Some s) new
            = [EaseTo s (spos st' ! unat (spos st' ! 2 ! s) ! s)]
        \<and> spos st' ! unat (spos st' ! 2 ! s) ! s
            = (if spos st ! 2 ! s = 0 then spos st ! 1 ! s else spos st ! 0 ! s)
        \<and> (\<exists>j. s \<le> j \<and> j < nservos \<and> input_differs lv st j \<and> lastchange st' = clk j
              \<and> (clk j \<noteq> 0 \<longrightarrow> DirtyMarker st' = Some (clk j))
              \<and> (\<forall>k. j < k \<and> k < nservos \<longrightarrow> \<not> input_differs lv st k))
        \<and> ((\<forall>j. clk j = now) \<longrightarrow>
              lastchange st' = now \<and> (now \<noteq> 0 \<longrightarrow> DirtyMarker st' = Some now)))
    \<and> (\<not> input_differs lv st s \<longrightarrow>
          spos st' ! 2 ! s = spos st ! 2 ! s
        \<and> spos st' ! 0 ! s = spos st ! 0 ! s \<and> spos st' ! 1 ! s = spos st ! 1 ! s
        \<and> filter (\<lambda>a. servo_of a = Some s) new = [])
    \<and> ((\<forall>j<nservos. \<not> input_differs lv st j) \<longrightarrow> st' = st)"
proof -
  let ?D = "input_differs lv st"
  let ?f = "\<lambda>s. if spos st ! 2 ! s = 0 then spos st ! 1 ! s else spos st ! 0 ! s"
  let ?new = "concat (map (\<lambda>s. if ?D s then [EaseTo s (?f s)] else []) [0..<nservos])"
  have dist: "distinct [0..<nservos]" and lt: "\<forall>j\<in>set [0..<nservos]. j < nservos"
    by simp_all
  from foreach_scan [OF assms(1) dist lt, of lv clk] obtain st' where
    r: "inputScan lv clk st = Some st'"
     "spos st' ! 0 = spos st ! 0" "spos st' ! 1 = spos st ! 1"
     "\<forall>s<nservos. spos st' ! 2 ! s =
           (if s \<in> set [0..<nservos] \<and> ?D s then lnot (spos st ! 2 ! s) else spos st ! 2 ! s)"
     "trace st' = trace st @ ?new"
     "lastchange st' = foldl (\<lambda>lc s. if ?D s then clk s else lc) (lastchange st) [0..<nservos]"
     "activeServo st' = activeServo st" "activePos st' = activePos st"
     "eeprom st' = eeprom st" "delayt st' = delayt st"
    unfolding inputScan_def by blast
  from r(4) assms(2) have cell: "spos st' ! 2 ! s = (if ?D s then lnot (spos st ! 2 ! s) else spos st ! 2 ! s)"
    by simp
  have moves: "filter (\<lambda>a. servo_of a = Some s) ?new = (if ?D s then [EaseTo s (?f s)] else [])"
    using assms(2) by (simp add: filter_scan_moves [OF dist])
  note last = last_differing [where n = nservos and D = ?D and init = "lastchange st" and c = clk]
  have yes: "spos st' ! 2 ! s = (if spos st ! 2 ! s = 0 then 1 else 0)
        \<and> filter (\<lambda>a. servo_of a = Some s) ?new
            = [EaseTo s (spos st' ! unat (spos st' ! 2 ! s) ! s)]
        \<and> spos st' ! unat (spos st' ! 2 ! s) ! s = ?f s
        \<and> (\<exists>j. s \<le> j \<and> j < nservos \<and> ?D j \<and> lastchange st' = clk j
              \<and> (clk j \<noteq> 0 \<longrightarrow> DirtyMarker st' = Some (clk j))
              \<and> (\<forall>k. j < k \<and> k < nservos \<longrightarrow> \<not> ?D k))
        \<and> ((\<forall>j. clk j = now) \<longrightarrow>
              lastchange st' = now \<and> (now \<noteq> 0 \<longrightarrow> DirtyMarker st' = Some now))" if d: "?D s"
  proof -
    have target: "spos st' ! unat (spos st' ! 2 ! s) ! s = ?f s"
      using d r(2,3) by (simp add: cell lnot_def)
    from d assms(2) have "\<exists>j<nservos. ?D j" by blast
    with last obtain j where j: "j < nservos" "?D j" "lastchange st' = clk j"
      "\<forall>k. j < k \<and> k < nservos \<longrightarrow> \<not> ?D k"
      unfolding r(6) by blast
    have "s \<le> j"
    proof (rule ccontr)
      assume "\<not> s \<le> j"
      then have "j < s \<and> s < nservos" using assms(2) by simp
      with j(4) d show False by blast
    qed
    moreover from j(3) have "clk j \<noteq> 0 \<longrightarrow> DirtyMarker st' = Some (clk j)"
      by (simp add: DirtyMarker_def)
    ultimately have l: "\<exists>j. s \<le> j \<and> j < nservos \<and> ?D j \<and> lastchange st' = clk j
              \<and> (clk j \<noteq> 0 \<longrightarrow> DirtyMarker st' = Some (clk j))
              \<and> (\<forall>k. j < k \<and> k < nservos \<longrightarrow> \<not> ?D k)"
      using j by blast
    from j(3) have n: "(\<forall>j. clk j = now) \<longrightarrow>
              lastchange st' = now \<and> (now \<noteq> 0 \<longrightarrow> DirtyMarker st' = Some now)"
      by (simp add: DirtyMarker_def)
    from d have c1: "spos st' ! 2 ! s = (if spos st ! 2 ! s = 0 then 1 else 0)"
      by (simp add: cell lnot_def)
    from d moves have "filter (\<lambda>a. servo_of a = Some s) ?new = [EaseTo s (?f s)]" by simp
    then have c2: "filter (\<lambda>a. servo_of a = Some s) ?new
        = [EaseTo s (spos st' ! unat (spos st' ! 2 ! s) ! s)]"
      by (simp only: target)
    from c1 c2 target l n show ?thesis by blast
  qed
  have no: "spos st' ! 2 ! s = spos st ! 2 ! s
        \<and> spos st' ! 0 ! s = spos st ! 0 ! s \<and> spos st' ! 1 ! s = spos st ! 1 ! s
        \<and> filter (\<lambda>a. servo_of a = Some s) ?new = []" if "\<not> ?D s"
    using that r(2,3) by (simp add: cell moves)
  have idle: "st' = st" if n: "\<forall>j<nservos. \<not> ?D j"
  proof -
    have "foreach js (scan_channel lv clk) st = Some st" if "\<forall>j\<in>set js. j < nservos" for js
      using that
    proof (induction js)
      case Nil
      then show ?case by simp
    next
      case (Cons j js)
      then have "j < nservos" by simp
      with n have "scan_channel lv clk j st = Some st"
        by (simp add: scan_channel_Some [OF assms(1)])
      with Cons show ?case by simp
    qed
    from this [OF lt] r(1) show ?thesis by (simp add: inputScan_def)
  qed
  from r(1,5) r(2,3) yes no idle show ?thesis by blast
qed


theorem inputScan_channel_witness:
  "(\<exists>st' new. inputScan only_input_3 (\<lambda>s. 5000) factory = Some st'
      \<and> trace st' = trace factory @ new
      \<and> spos st' ! 2 ! 3 = 1 \<and> filter (\<lambda>a. servo_of a = Some 3) new = [EaseTo 3 50]
      \<and> DirtyMarker st' = Some 5000
      \<and> spos st' ! 2 ! 2 = 0 \<and> filter (\<lambda>a. servo_of a = Some 2) new = [])
   \<and> (\<exists>st' new. inputScan (\<lambda>s. False) (\<lambda>s. 5000) servo_3_second = Some st'
      \<and> trace st' = trace servo_3_second @ new
      \<and> spos st' ! 2 ! 3 = 0 \<and> filter (\<lambda>a. servo_of a = Some 3) new = [EaseTo 3 130]
      \<and> DirtyMarker st' = Some 5000)
   \<and> inputScan (\<lambda>s. False) (\<lambda>s. 5000) factory = Some factory"
proof -
  let ?clk = "\<lambda>s::nat. 5000::u32"
  have sh: "shape (spos factory)" by (rule table_inv_shape [OF factory_table_inv(2)])
  have sh2: "shape (spos servo_3_second)"
    by (simp add: servo_3_second_def shape_def nservos_def)
  have n: "(3::nat) < nservos" "(2::nat) < nservos" by (simp_all add: nservos_def)
  have v: "spos factory ! 2 ! 3 = 0" "spos factory ! 2 ! 2 = 0" "spos factory ! 1 ! 3 = 50"
    by (simp_all add: factory_def nservos_def)
  have w: "spos servo_3_second ! 2 ! 3 = 1" "spos servo_3_second ! 0 ! 3 = 130"
    by (simp_all add: servo_3_second_def nservos_def)
  have d3: "input_differs only_input_3 factory 3" and d2: "\<not> input_differs only_input_3 factory 2"
    by (simp_all add: input_differs_def digitalRead_def only_input_3_def v)
  have e3: "input_differs (\<lambda>s. False) servo_3_second 3"
    by (simp add: input_differs_def digitalRead_def w)
  have quiet: "\<forall>j<nservos. \<not> input_differs (\<lambda>s. False) factory j"
    by (simp add: input_differs_def digitalRead_def factory_def)
  have clock: "\<forall>j. ?clk j = 5000" "(5000::u32) \<noteq> 0" by simp_all
  from inputScan_channel [OF sh n(1), of only_input_3 ?clk 5000] obtain st1 new1 where
    a0: "inputScan only_input_3 ?clk factory = Some st1 \<and> trace st1 = trace factory @ new1
      \<and> spos st1 ! 0 = spos factory ! 0 \<and> spos st1 ! 1 = spos factory ! 1
      \<and> (input_differs only_input_3 factory 3 \<longrightarrow>
          spos st1 ! 2 ! 3 = (if spos factory ! 2 ! 3 = 0 then 1 else 0)
        \<and> filter (\<lambda>a. servo_of a = Some 3) new1
            = [EaseTo 3 (spos st1 ! unat (spos st1 ! 2 ! 3) ! 3)]
        \<and> spos st1 ! unat (spos st1 ! 2 ! 3) ! 3
            = (if spos factory ! 2 ! 3 = 0 then spos factory ! 1 ! 3 else spos factory ! 0 ! 3)
        \<and> (\<exists>j. 3 \<le> j \<and> j < nservos \<and> input_differs only_input_3 factory j
              \<and> lastchange st1 = 5000
              \<and> ((5000::u32) \<noteq> 0 \<longrightarrow> DirtyMarker st1 = Some 5000)
              \<and> (\<forall>k. j < k \<and> k < nservos \<longrightarrow> \<not> input_differs only_input_3 factory k))
        \<and> ((\<forall>j::nat. (5000::u32) = 5000) \<longrightarrow>
              lastchange st1 = 5000 \<and> ((5000::u32) \<noteq> 0 \<longrightarrow> DirtyMarker st1 = Some 5000)))
      \<and> (\<not> input_differs only_input_3 factory 3 \<longrightarrow>
          spos st1 ! 2 ! 3 = spos factory ! 2 ! 3
        \<and> spos st1 ! 0 ! 3 = spos factory ! 0 ! 3 \<and> spos st1 ! 1 ! 3 = spos factory ! 1 ! 3
        \<and> filter (\<lambda>a. servo_of a = Some 3) new1 = [])
      \<and> ((\<forall>j<nservos. \<not> input_differs only_input_3 factory j) \<longrightarrow> st1 = factory)"
    by (elim exE)
  with d3 v have a: "inputScan only_input_3 ?clk factory = Some st1"
      "trace st1 = trace factory @ new1"
      "spos st1 ! 2 ! 3 = 1" "filter (\<lambda>a. servo_of a = Some 3) new1 = [EaseTo 3 50]"
      "DirtyMarker st1 = Some 5000"
    by simp_all
  from inputScan_channel [OF sh n(2), of only_input_3 ?clk 5000] d2 obtain st2 new2 where
    b: "inputScan only_input_3 ?clk factory = Some st2" "trace st2 = trace factory @ new2"
      "spos st2 ! 2 ! 2 = spos factory ! 2 ! 2"
      "filter (\<lambda>a. servo_of a = Some 2) new2 = []"
    by auto
  from a(1) b(1) have same: "st2 = st1" by simp
  with a(2) b(2) have new: "new2 = new1" by simp
  have first: "\<exists>st' new. inputScan only_input_3 ?clk factory = Some st'
      \<and> trace st' = trace factory @ new
      \<and> spos st' ! 2 ! 3 = 1 \<and> filter (\<lambda>a. servo_of a = Some 3) new = [EaseTo 3 50]
      \<and> DirtyMarker st' = Some 5000
      \<and> spos st' ! 2 ! 2 = 0 \<and> filter (\<lambda>a. servo_of a = Some 2) new = []"
  proof (intro exI conjI)
    show "inputScan only_input_3 ?clk factory = Some st1" by (rule a(1))
    show "trace st1 = trace factory @ new1" by (rule a(2))
    show "spos st1 ! 2 ! 3 = 1" by (rule a(3))
    show "filter (\<lambda>a. servo_of a = Some 3) new1 = [EaseTo 3 50]" by (rule a(4))
    show "DirtyMarker st1 = Some 5000" by (rule a(5))
    show "spos st1 ! 2 ! 2 = 0" using b(3) same v(2) by simp
    show "filter (\<lambda>a. servo_of a = Some 2) new1 = []" using b(4) new by simp
  qed
  from inputScan_channel [OF sh2 n(1), of "\<lambda>s. False" ?clk 5000] obtain st3 new3 where
    c0: "inputScan (\<lambda>s. False) ?clk servo_3_second = Some st3
      \<and> trace st3 = trace servo_3_second @ new3
      \<and> spos st3 ! 0 = spos servo_3_second ! 0 \<and> spos st3 ! 1 = spos servo_3_second ! 1
      \<and> (input_differs (\<lambda>s. False) servo_3_second 3 \<longrightarrow>
          spos st3 ! 2 ! 3 = (if spos servo_3_second ! 2 ! 3 = 0 then 1 else 0)
        \<and> filter (\<lambda>a. servo_of a = Some 3) new3
            = [EaseTo 3 (spos st3 ! unat (spos st3 ! 2 ! 3) ! 3)]
        \<and> spos st3 ! unat (spos st3 ! 2 ! 3) ! 3
            = (if spos servo_3_second ! 2 ! 3 = 0 then spos servo_3_second ! 1 ! 3
               else spos servo_3_second ! 0 ! 3)
        \<and> (\<exists>j. 3 \<le> j \<and> j < nservos \<and> input_differs (\<lambda>s. False) servo_3_second j
              \<and> lastchange st3 = 5000
              \<and> ((5000::u32) \<noteq> 0 \<longrightarrow> DirtyMarker st3 = Some 5000)
              \<and> (\<forall>k. j < k \<and> k < nservos \<longrightarrow> \<not> input_differs (\<lambda>s. False) servo_3_second k))
        \<and> ((\<forall>j::nat. (5000::u32) = 5000) \<longrightarrow>
              lastchange st3 = 5000 \<and> ((5000::u32) \<noteq> 0 \<longrightarrow> DirtyMarker st3 = Some 5000)))
      \<and> (\<not> input_differs (\<lambda>s. False) servo_3_second 3 \<longrightarrow>
          spos st3 ! 2 ! 3 = spos servo_3_second ! 2 ! 3
        \<and> spos st3 ! 0 ! 3 = spos servo_3_second ! 0 ! 3
        \<and> spos st3 ! 1 ! 3 = spos servo_3_second ! 1 ! 3
        \<and> filter (\<lambda>a. servo_of a = Some 3) new3 = [])
      \<and> ((\<forall>j<nservos. \<not> input_differs (\<lambda>s. False) servo_3_second j) \<longrightarrow> st3 = servo_3_second)"
    by (elim exE)
  with e3 w have c: "inputScan (\<lambda>s. False) ?clk servo_3_second = Some st3"
      "trace st3 = trace servo_3_second @ new3"
      "spos st3 ! 2 ! 3 = 0" "filter (\<lambda>a. servo_of a = Some 3) new3 = [EaseTo 3 130]"
      "DirtyMarker st3 = Some 5000"
    by simp_all
  then have second: "\<exists>st' new. inputScan (\<lambda>s. False) ?clk servo_3_second = Some st'
      \<and> trace st' = trace servo_3_second @ new
      \<and> spos st' ! 2 ! 3 = 0 \<and> filter (\<lambda>a. servo_of a = Some 3) new = [EaseTo 3 130]
      \<and> DirtyMarker st' = Some 5000"
    by (intro exI conjI)
  from inputScan_channel [OF sh n(2), of "\<lambda>s. False" ?clk 5000] quiet
  have third: "inputScan (\<lambda>s. False) ?clk factory = Some factory"
    by auto
  from first second third show ?thesis by (intro conjI)
qed

subsection \<open>Claim C4\<close>

text \<open>
  Claim C4. The next-servo button, pressed at \<open>now\<close> and found down at the clock values
  \<open>held\<close>, moves \<open>activeServo\<close> to \<open>(activeServo + 1) mod nservos\<close>, unless one of
  the polls during the hold sees more than 2000 ms elapsed since the press: then
  \<open>activeServo\<close> is 0 on release, whatever it was before. Either way \<open>activePos\<close> is
  reset to the current position (row 2) of the new active servo.
\<close>

theorem nextservo_advances:
  assumes "table_inv (spos st)" and "unat (activeServo st) < nservos"
  shows "\<exists>st'. nextservo_press now held st = Some st'
     \<and> unat (activeServo st') =
         (if \<exists>t\<in>set held. 2000 < t - now then 0 else (unat (activeServo st) + 1) mod nservos)
     \<and> unat (activeServo st') < nservos
     \<and> activePos st' = spos st' ! 2 ! unat (activeServo st')
     \<and> spos st' = spos st
     \<and> trace st' = trace st @
          [EaseTo (unat (activeServo st))
             (spos st ! unat (spos st ! 2 ! unat (activeServo st)) ! unat (activeServo st)),
           EaseTo (unat (activeServo st'))
             (spos st ! unat (activePos st') ! unat (activeServo st')),
           Wait 200]"
proof (cases "\<exists>t\<in>set held. 2000 < t - now")
  case True
  then show ?thesis
    by (simp add: nextservo_press_Some [OF assms] nservos_def)
next
  case False
  have "(unat (activeServo st) + 1) mod nservos < nservos"
    by (simp add: nservos_def)
  with False next_servo_short [OF assms(2)] show ?thesis
    by (simp add: nextservo_press_Some [OF assms])
qed

theorem nextservo_advances_witness:
  "(\<exists>st'. nextservo_press 5000 [5001, 6000, 7001] (factory\<lparr>activeServo := 5\<rparr>) = Some st'
      \<and> activeServo st' = 0 \<and> activePos st' = 0)
   \<and> (\<exists>st'. nextservo_press 5000 [5001, 6000] (factory\<lparr>activeServo := 5\<rparr>) = Some st'
      \<and> activeServo st' = 6)
   \<and> (\<exists>st'. nextservo_press 5000 [5001, 6000] (factory\<lparr>activeServo := 7\<rparr>) = Some st'
      \<and> activeServo st' = 0)"
proof -
  have h5: "table_inv (spos (factory\<lparr>activeServo := 5\<rparr>))"
      "unat (activeServo (factory\<lparr>activeServo := 5\<rparr>)) < nservos"
    and h7: "table_inv (spos (factory\<lparr>activeServo := 7\<rparr>))"
      "unat (activeServo (factory\<lparr>activeServo := 7\<rparr>)) < nservos"
    by (simp_all add: factory_table_inv nservos_def)
  have z: "spos factory ! 2 ! 0 = 0"
    by (simp add: factory_def nservos_def)
  have u5: "unat (activeServo (factory\<lparr>activeServo := 5\<rparr>)) = 5"
    and u7: "unat (activeServo (factory\<lparr>activeServo := 7\<rparr>)) = 7"
    by simp_all
  from nextservo_advances [OF h5, of 5000 "[5001, 6000, 7001]"] obtain s1 where
    s1: "nextservo_press 5000 [5001, 6000, 7001] (factory\<lparr>activeServo := 5\<rparr>) = Some s1"
      "unat (activeServo s1) = (if \<exists>t\<in>set [5001, 6000, 7001]. 2000 < t - (5000::u32) then 0
         else (unat (activeServo (factory\<lparr>activeServo := 5\<rparr>)) + 1) mod nservos)"
      "activePos s1 = spos s1 ! 2 ! unat (activeServo s1)"
      "spos s1 = spos (factory\<lparr>activeServo := 5\<rparr>)"
    by blast
  from s1(2) have "unat (activeServo s1) = 0" by simp
  then have s1a: "activeServo s1 = 0" by (simp add: unat_eq_0)
  with s1(3,4) z have "activePos s1 = 0" by simp
  with s1(1) s1a
  have a: "\<exists>st'. nextservo_press 5000 [5001, 6000, 7001] (factory\<lparr>activeServo := 5\<rparr>) = Some st'
      \<and> activeServo st' = 0 \<and> activePos st' = 0"
    by simp
  from nextservo_advances [OF h5, of 5000 "[5001, 6000]"] obtain s2 where
    s2: "nextservo_press 5000 [5001, 6000] (factory\<lparr>activeServo := 5\<rparr>) = Some s2"
      "unat (activeServo s2) = (if \<exists>t\<in>set [5001, 6000]. 2000 < t - (5000::u32) then 0
         else (unat (activeServo (factory\<lparr>activeServo := 5\<rparr>)) + 1) mod nservos)"
    by blast
  from s2(2) have "unat (activeServo s2) = unat (6::u8)"
    by (simp only: u5) (simp add: nservos_def)
  then have "activeServo s2 = 6" by (simp only: word_unat_eq_iff)
  with s2(1)
  have b: "\<exists>st'. nextservo_press 5000 [5001, 6000] (factory\<lparr>activeServo := 5\<rparr>) = Some st'
      \<and> activeServo st' = 6"
    by simp
  from nextservo_advances [OF h7, of 5000 "[5001, 6000]"] obtain s3 where
    s3: "nextservo_press 5000 [5001, 6000] (factory\<lparr>activeServo := 7\<rparr>) = Some s3"
      "unat (activeServo s3) = (if \<exists>t\<in>set [5001, 6000]. 2000 < t - (5000::u32) then 0
         else (unat (activeServo (factory\<lparr>activeServo := 7\<rparr>)) + 1) mod nservos)"
    by blast
  from s3(2) have "unat (activeServo s3) = 0"
    by (simp only: u7) (simp add: nservos_def)
  then have "activeServo s3 = 0" by (simp add: unat_eq_0)
  with s3(1)
  have c: "\<exists>st'. nextservo_press 5000 [5001, 6000] (factory\<lparr>activeServo := 7\<rparr>) = Some st'
      \<and> activeServo st' = 0"
    by simp
  from a b c show ?thesis by blast
qed

subsection \<open>Claim C5\<close>

text \<open>
  Claim C5. When the byte at EEPROM address 0 is not \<open>0xA5\<close>, the initialisation
  writes the marker, sets for every servo the first position to
  \<open>(MAXPOSN-MINPOSN)/2 + 40\<close>, the second to \<open>(MAXPOSN-MINPOSN)/2 - 40\<close> and the
  current position to 0, and saves that table to the EEPROM from address 1. This happens
  before the table is retrieved, so \<open>setup()\<close> ends with exactly these defaults in
  memory: the table retrieved is the table \<open>init_eeprom\<close> stored.
\<close>

theorem setup_reinitialises_on_bad_marker:
  assumes "e 0 \<noteq> 0xA5"
  shows "\<exists>st1 st'.
      init_eeprom (delay 2000 (power_on e)) = Some st1
    \<and> eeprom st1 0 = 0xA5
    \<and> stored_table st1 = spos st1
    \<and> setup_fn (power_on e) = Some st'
    \<and> spos st' = stored_table st1
    \<and> eeprom st' = eeprom st1
    \<and> shape (spos st')
    \<and> (\<forall>s<nservos.
          spos st' ! 0 ! s = word_of_int ((MAXPOSN - MINPOSN) div 2 + 40)
        \<and> spos st' ! 1 ! s = word_of_int ((MAXPOSN - MINPOSN) div 2 - 40)
        \<and> spos st' ! 2 ! s = 0)"
proof -
  define d where "d = [replicate nservos 130, replicate nservos 50, replicate nservos (0::u8)]"
  define st1 where "st1 = (delay 2000 (power_on e))\<lparr>spos := d,
      eeprom := EEPROM_put 1 d (e(0 := 0xA5))\<rparr>"
  have d: "table_inv d" unfolding d_def by (rule table_inv_defaults)
  have init: "init_eeprom (delay 2000 (power_on e)) = Some st1"
    unfolding st1_def d_def using assms by (rule init_eeprom_bad_marker)
  have sp: "spos st1 = d" by (simp add: st1_def)
  have marker: "eeprom st1 0 = 0xA5"
    by (simp add: st1_def EEPROM_put_other)
  have stored: "stored_table st1 = d"
    using table_inv_shape [OF d] by (simp add: st1_def stored_table_def EEPROM_get_put)
  have ret: "retrieve st1 = st1"
    using stored sp by (simp add: retrieve_def stored_table_def)
  define st' where "st' = st1\<lparr>trace := trace st1 @
        map (\<lambda>i. EaseTo i (spos st1 ! unat (spos st1 ! 2 ! i) ! i)) [0..<nservos]\<rparr>"
  have "table_inv (spos st1)" using d sp by simp
  from ease_all_saved [OF this]
  have fin: "setup_fn (power_on e) = Some st'"
    by (simp add: setup_fn_def init ret st'_def)
  have sp': "spos st' = d" "eeprom st' = eeprom st1"
    by (simp_all add: st'_def sp)
  have vals: "\<forall>s<nservos.
          d ! 0 ! s = word_of_int ((MAXPOSN - MINPOSN) div 2 + 40)
        \<and> d ! 1 ! s = word_of_int ((MAXPOSN - MINPOSN) div 2 - 40)
        \<and> d ! 2 ! s = 0"
    by (simp add: d_def MAXPOSN_def MINPOSN_def)
  from init marker stored sp fin sp' table_inv_shape [OF d] vals
  have "init_eeprom (delay 2000 (power_on e)) = Some st1
    \<and> eeprom st1 0 = 0xA5
    \<and> stored_table st1 = spos st1
    \<and> setup_fn (power_on e) = Some st'
    \<and> spos st' = stored_table st1
    \<and> eeprom st' = eeprom st1
    \<and> shape (spos st')
    \<and> (\<forall>s<nservos.
          spos st' ! 0 ! s = word_of_int ((MAXPOSN - MINPOSN) div 2 + 40)
        \<and> spos st' ! 1 ! s = word_of_int ((MAXPOSN - MINPOSN) div 2 - 40)
        \<and> spos st' ! 2 ! s = 0)"
    by simp
  then show ?thesis by blast
qed

theorem setup_reinitialises_on_bad_marker_witness:
  "(\<lambda>a. 0xFF :: u8) 0 \<noteq> 0xA5 \<and>
   (\<exists>st'. setup_fn (power_on (\<lambda>a. 0xFF)) = Some st'
      \<and> spos st' ! 0 ! 3 = 130 \<and> spos st' ! 1 ! 3 = 50 \<and> spos st' ! 2 ! 3 = 0
      \<and> eeprom st' 0 = 0xA5 \<and> stored_table st' = spos st')"
proof -
  have h: "(\<lambda>a. 0xFF :: u8) 0 \<noteq> 0xA5" by simp
  from setup_reinitialises_on_bad_marker [OF h]
  obtain st1 st' where *: "eeprom st1 0 = 0xA5" "stored_table st1 = spos st1"
    "setup_fn (power_on (\<lambda>a. 0xFF)) = Some st'" "spos st' = stored_table st1"
    "eeprom st' = eeprom st1"
    and v: "\<forall>s<nservos.
          spos st' ! 0 ! s = word_of_int ((MAXPOSN - MINPOSN) div 2 + 40)
        \<and> spos st' ! 1 ! s = word_of_int ((MAXPOSN - MINPOSN) div 2 - 40)
        \<and> spos st' ! 2 ! s = 0"
    by blast
  have "(3::nat) < nservos" by (simp add: nservos_def)
  with v have "spos st' ! 0 ! 3 = 130 \<and> spos st' ! 1 ! 3 = 50 \<and> spos st' ! 2 ! 3 = 0"
    by (simp add: MAXPOSN_def MINPOSN_def)
  with * h show ?thesis by (auto simp: stored_table_def)
qed

subsection \<open>Claim C6\<close>

text \<open>
  Claim C6, as stated, has the first delay at 200. The sketch subtracts 10 from \<open>delayt\<close>
  before it waits: after a single repeat of the up button the wait is 190 ms.
\<close>

theorem first_repeat_delay_counterexample:
  "adjust [5000] [] factory =
     Some (factory\<lparr>spos := [(replicate nservos 130)[0 := 131], replicate nservos 50,
                             replicate nservos 0],
                    lastchange := 5000, delayt := 190,
                    trace := trace factory @ [WriteNow 0 131, Wait 190]\<rparr>)
   \<and> delays_of [WriteNow 0 131, Wait 190] = [190]"
  by (simp add: adjust_one_up)

text \<open>
  Claim C6, amended. In one pass of \<open>loop()\<close>, with the up button found down \<open>length ups\<close>
  times and then the down button \<open>length downs\<close> times, the waits between repeats are
  190, 180, ... down to 50 and then 50 for every further repeat: the \<open>k\<close>-th wait
  (counting from 1, over both loops together) is \<open>max 50 (200 - 10 k)\<close>. The down loop
  continues where the up loop stopped. The sequence never increases.
\<close>

theorem repeat_delays:
  assumes "editable st"
  shows "\<exists>st' new. adjust ups downs st = Some st' \<and> trace st' = trace st @ new
     \<and> delays_of new = map (\<lambda>k. max 50 (200 - 10 * Suc k)) [0..<length ups + length downs]
     \<and> sorted_wrt (\<lambda>a b. b \<le> a) (delays_of new)"
proof -
  let ?st0 = "st\<lparr>delayt := 200\<rparr>"
  have e0: "editable ?st0" using assms by (simp add: editable_delayt)
  have d0: "50 \<le> unat (delayt ?st0)" by simp
  from while_held_delays [where I = editable and body = up_step, OF up_step_delays e0 d0, of ups]
  obtain st1 new1 where
    u: "while_held ups up_step ?st0 = Some st1" "editable st1" "trace st1 = trace ?st0 @ new1"
      "delays_of new1 = map (\<lambda>k. max 50 (unat (delayt ?st0) - 10 * Suc k)) [0..<length ups]"
      "unat (delayt st1) = max 50 (unat (delayt ?st0) - 10 * length ups)"
    by blast
  from u(5) have d1: "50 \<le> unat (delayt st1)" by simp
  from while_held_delays [where I = editable and body = down_step, OF down_step_delays u(2) d1, of downs]
  obtain st2 new2 where
    d: "while_held downs down_step st1 = Some st2" "trace st2 = trace st1 @ new2"
      "delays_of new2 = map (\<lambda>k. max 50 (unat (delayt st1) - 10 * Suc k)) [0..<length downs]"
    by blast
  have run: "adjust ups downs st = Some st2"
    by (simp add: adjust_def u(1) d(1))
  have tr: "trace st2 = trace st @ (new1 @ new2)"
    by (simp add: d(2) u(3))
  have u4: "delays_of new1 = map (\<lambda>k. max 50 (200 - 10 * Suc k)) [0..<length ups]"
    using u(4) by simp
  have u5: "unat (delayt st1) = max 50 (200 - 10 * length ups)"
    using u(5) by simp
  have shift: "max 50 (max 50 (200 - 10 * length ups) - 10 * Suc k)
      = max (50::nat) (200 - 10 * Suc (length ups + k))" for k
  proof -
    have "10 * length ups + 10 * Suc k = 10 * Suc (length ups + k)" by simp
    then show ?thesis by (simp only: max_50_sub)
  qed
  have second: "delays_of new2 =
      map (\<lambda>k. max 50 (200 - 10 * Suc (length ups + k))) [0..<length downs]"
    unfolding d(3) u5 by (simp only: shift)
  note delays_split [of "length ups" "length downs"]
  then have dl: "delays_of (new1 @ new2) =
      map (\<lambda>k. max 50 (200 - 10 * Suc k)) [0..<length ups + length downs]"
    by (simp add: delays_of_append u4 second)
  have "sorted_wrt (\<lambda>a b. b \<le> a)
      (map (\<lambda>k. max (50::nat) (200 - 10 * Suc k)) [0..<length ups + length downs])"
    by (rule delays_never_increase)
  with dl have "sorted_wrt (\<lambda>a b. b \<le> a) (delays_of (new1 @ new2))" by simp
  with run tr dl show ?thesis by blast
qed

theorem repeat_delays_witness:
  "\<exists>st' new. adjust (replicate 15 5000) [9000, 9050] factory = Some st'
     \<and> trace st' = trace factory @ new
     \<and> delays_of new = [190, 180, 170, 160, 150, 140, 130, 120, 110, 100, 90, 80, 70, 60, 50,
          50, 50]"
proof -
  from repeat_delays [OF editable_factory, of "replicate 15 5000" "[9000, 9050]"]
  obtain st' new where
    *: "adjust (replicate 15 5000) [9000, 9050] factory = Some st'" "trace st' = trace factory @ new"
      "delays_of new = map (\<lambda>k. max 50 (200 - 10 * Suc k))
          [0..<length (replicate 15 (5000::u32)) + length [9000, 9050::u32]]"
    by blast
  have "map (\<lambda>k. max 50 (200 - 10 * Suc k))
          [0..<length (replicate 15 (5000::u32)) + length [9000, 9050::u32]]
      = [190, 180, 170, 160, 150, 140, 130, 120, 110, 100, 90, 80, 70, 60, 50, 50, 50::nat]"
    by (simp add: upt_rec)
  with * show ?thesis by auto
qed

subsection \<open>Claim C7\<close>

text \<open>
  Claim C7. From a state whose \<open>activePos\<close> is 0 or 1, the next-position button sets
  \<open>activePos\<close> to \<open>(activePos + 1) mod 2\<close>, which is again 0 or 1, and issues one eased
  move of the active servo to the position stored for the newly selected slot (followed by
  the settle delay of 200 ms). The table and the active servo are left alone, and
  \<open>lastchange\<close> becomes the time of the press.
\<close>

theorem nextposn_toggles:
  assumes "activePos st = 0 \<or> activePos st = 1" and "unat (activeServo st) < nservos"
  shows "\<exists>st'. nextposn_press now st = Some st'
     \<and> unat (activePos st') = (unat (activePos st) + 1) mod 2
     \<and> (activePos st' = 0 \<or> activePos st' = 1)
     \<and> trace st' = trace st @
          [EaseTo (unat (activeServo st))
             (spos st ! unat (activePos st') ! unat (activeServo st)), Wait 200]
     \<and> spos st' = spos st \<and> activeServo st' = activeServo st \<and> lastchange st' = now"
proof -
  from assms(1) show ?thesis
  proof
    assume "activePos st = 0"
    then show ?thesis
      by (simp add: nextposn_press_Some [OF assms(2)])
  next
    assume "activePos st = 1"
    then show ?thesis
      by (simp add: nextposn_press_Some [OF assms(2)])
  qed
qed

theorem nextposn_toggles_witness:
  "\<exists>st'. nextposn_press 5000 factory = Some st' \<and> activePos st' = 1
     \<and> trace st' = trace factory @ [EaseTo 0 50, Wait 200] \<and> lastchange st' = 5000"
proof -
  have h: "activePos factory = 0 \<or> activePos factory = 1" "unat (activeServo factory) < nservos"
    by (simp_all add: factory_def nservos_def)
  from nextposn_toggles [OF h, of 5000] obtain st' where
    *: "nextposn_press 5000 factory = Some st'"
       "unat (activePos st') = (unat (activePos factory) + 1) mod 2"
       "activePos st' = 0 \<or> activePos st' = 1"
       "trace st' = trace factory @
          [EaseTo (unat (activeServo factory))
             (spos factory ! unat (activePos st') ! unat (activeServo factory)), Wait 200]"
       "lastchange st' = 5000"
    by blast
  from *(2,3) have p: "activePos st' = 1" by (auto simp: factory_def)
  have "spos factory ! 1 ! 0 = 50" "activeServo factory = 0"
    by (simp_all add: factory_def nservos_def)
  with * p show ?thesis by simp
qed

subsection \<open>Claim C8\<close>

text \<open>
  Claim C8, as stated, has the invariant hold after every startup with a valid marker.
  \<open>setup()\<close> copies the EEPROM into the table without looking at the values: on an
  EEPROM that carries the marker and a first data byte of 200, startup completes with the
  first position of servo 0 at 200, above \<open>MAXPOSN\<close>.
\<close>

theorem setup_keeps_stale_table_counterexample:
  "stale_eeprom 0 = 0xA5 \<and> setup_fn (power_on stale_eeprom) = Some stale_state
   \<and> spos stale_state ! 0 ! 0 = 200 \<and> \<not> table_inv (spos stale_state)"
  using stale_not_inv by (simp add: setup_stale) (simp add: stale_eeprom_def stale_state_def)

text \<open>
  Claim C8, amended. The invariant (every stored position between \<open>MINPOSN\<close> and
  \<open>MAXPOSN\<close>, every current position 0 or 1, the array of its declared shape), together
  with a cursor that points into the table, holds after \<open>setup()\<close> when the EEPROM lacks
  the marker, and also when it has the marker and the table stored from address 1 already
  satisfies the invariant. From a state that satisfies it, \<open>inputScan\<close>, a repeat of the
  up or down button, the next-position and next-servo buttons, the save and a whole pass
  of \<open>loop()\<close> all complete and end in a state that satisfies it.
\<close>

theorem invariant_established_and_preserved:
  "(e 0 \<noteq> 0xA5 \<or> table_inv (EEPROM_get 1 e) \<longrightarrow>
      (\<exists>st'. setup_fn (power_on e) = Some st' \<and> controller_inv st'))
   \<and> (controller_inv st \<longrightarrow>
        (\<exists>st'. inputScan lv clk st = Some st' \<and> controller_inv st')
      \<and> (\<exists>st'. up_step now st = Some st' \<and> controller_inv st')
      \<and> (\<exists>st'. down_step now st = Some st' \<and> controller_inv st')
      \<and> (\<exists>st'. nextposn_press now st = Some st' \<and> controller_inv st')
      \<and> (\<exists>st'. nextservo_press now held st = Some st' \<and> controller_inv st')
      \<and> (\<exists>st'. persist now st = Some st' \<and> controller_inv st')
      \<and> (\<exists>st'. loop inp st = Some st' \<and> controller_inv st'))"
proof (intro conjI impI)
  assume "e 0 \<noteq> 0xA5 \<or> table_inv (EEPROM_get 1 e)"
  from setup_inv [OF this] show "\<exists>st'. setup_fn (power_on e) = Some st' \<and> controller_inv st'"
    by blast
next
  assume "controller_inv st"
  from inputScan_inv [OF this, of lv clk]
  show "\<exists>st'. inputScan lv clk st = Some st' \<and> controller_inv st'" by blast
next
  assume "controller_inv st"
  from up_step_inv [OF this, of now]
  show "\<exists>st'. up_step now st = Some st' \<and> controller_inv st'" by blast
next
  assume "controller_inv st"
  from down_step_inv [OF this, of now]
  show "\<exists>st'. down_step now st = Some st' \<and> controller_inv st'" by blast
next
  assume "controller_inv st"
  from nextposn_press_inv [OF this, of now]
  show "\<exists>st'. nextposn_press now st = Some st' \<and> controller_inv st'" by blast
next
  assume "controller_inv st"
  from nextservo_press_inv [OF this, of now held]
  show "\<exists>st'. nextservo_press now held st = Some st' \<and> controller_inv st'" by blast
next
  assume "controller_inv st"
  from persist_inv [OF this, of now]
  show "\<exists>st'. persist now st = Some st' \<and> controller_inv st'" by blast
next
  assume "controller_inv st"
  from loop_inv [OF this, of inp]
  show "\<exists>st'. loop inp st = Some st' \<and> controller_inv st'" by blast
qed

theorem invariant_established_and_preserved_witness:
  "(\<exists>st'. setup_fn (power_on (\<lambda>a. 0xFF)) = Some st' \<and> controller_inv st')
   \<and> (\<exists>st'. setup_fn (power_on (eeprom factory)) = Some st' \<and> controller_inv st')
   \<and> (\<exists>st'. inputScan (\<lambda>s. s = 3) (\<lambda>s. 7000) factory = Some st' \<and> controller_inv st')
   \<and> (\<exists>st'. up_step 5000 factory = Some st' \<and> controller_inv st')
   \<and> (\<exists>st'. down_step 5000 factory = Some st' \<and> controller_inv st')
   \<and> (\<exists>st'. nextposn_press 5000 factory = Some st' \<and> controller_inv st')
   \<and> (\<exists>st'. nextservo_press 5000 [5001] factory = Some st' \<and> controller_inv st')
   \<and> (\<exists>st'. persist 25001 edited = Some st' \<and> controller_inv st')
   \<and> (\<exists>st'. loop busy_pass factory = Some st' \<and> controller_inv st')"
proof -
  have f: "controller_inv factory"
    using editable_factory factory_table_inv(2)
    by (simp add: controller_inv_def editable_def)
  have ed: "controller_inv edited"
    using edited_table_inv f
    by (simp add: controller_inv_def cursor_inv_def edited_def)
  have blank: "(\<lambda>a. 0xFF :: u8) 0 \<noteq> 0xA5 \<or> table_inv (EEPROM_get 1 (\<lambda>a. 0xFF))"
    by simp
  have "EEPROM_get 1 (eeprom factory) = spos factory"
    using table_inv_shape [OF table_inv_defaults]
    by (simp add: factory_def EEPROM_get_put)
  then have kept: "eeprom factory 0 \<noteq> 0xA5 \<or> table_inv (EEPROM_get 1 (eeprom factory))"
    using factory_table_inv(2) by simp
  from invariant_established_and_preserved
         [of "\<lambda>a. 0xFF" factory "\<lambda>s. s = 3" "\<lambda>s. 7000" 5000 "[5001]" busy_pass] blank f
  have a: "(\<exists>st'. setup_fn (power_on (\<lambda>a. 0xFF)) = Some st' \<and> controller_inv st')
   \<and> (\<exists>st'. inputScan (\<lambda>s. s = 3) (\<lambda>s. 7000) factory = Some st' \<and> controller_inv st')
   \<and> (\<exists>st'. up_step 5000 factory = Some st' \<and> controller_inv st')
   \<and> (\<exists>st'. down_step 5000 factory = Some st' \<and> controller_inv st')
   \<and> (\<exists>st'. nextposn_press 5000 factory = Some st' \<and> controller_inv st')
   \<and> (\<exists>st'. nextservo_press 5000 [5001] factory = Some st' \<and> controller_inv st')
   \<and> (\<exists>st'. loop busy_pass factory = Some st' \<and> controller_inv st')"
    by blast
  from invariant_established_and_preserved
         [of "eeprom factory" edited "\<lambda>s. s = 3" "\<lambda>s. 7000" 25001 "[5001]" busy_pass] kept ed
  have b: "(\<exists>st'. setup_fn (power_on (eeprom factory)) = Some st' \<and> controller_inv st')
   \<and> (\<exists>st'. persist 25001 edited = Some st' \<and> controller_inv st')"
    by blast
  from a b show ?thesis by blast
qed

subsection \<open>Claim C9\<close>

text \<open>
  Claim C9, as stated, asks only that table mutations happen at nonzero times. The
  next-position button writes the clock into \<open>lastchange\<close> without touching the table.
  In the run below the only table mutation (servo 0's first position, 130 to 131) is made
  at clock value 4294967106; the next-position button is then found down at clock value
  0. The run ends with \<open>lastchange = 0\<close> while the EEPROM still holds 130.
\<close>

theorem clean_marker_after_clock_wrap_counterexample:
  "run (\<lambda>a. 0xFF) [wrap_pass] = Some wrapped
   \<and> up_held wrap_pass = [4294967106] \<and> nextposn_at wrap_pass = Some 0
   \<and> DirtyMarker wrapped = None
   \<and> stored_table wrapped ! 0 ! 0 = 130 \<and> spos wrapped ! 0 ! 0 = 131"
proof -
  have "run (\<lambda>a. 0xFF) [wrap_pass] = Some wrapped"
    by (simp add: run_def setup_blank loop_wrap_pass)
  moreover have "stored_table wrapped = [replicate nservos 130, replicate nservos 50, replicate nservos 0]"
    using table_inv_shape [OF table_inv_defaults]
    by (simp add: stored_table_def wrapped_def factory_def EEPROM_get_put)
  then have "stored_table wrapped ! 0 ! 0 = 130" by (simp add: nservos_def)
  moreover have "spos wrapped ! 0 ! 0 = 131" by (simp add: wrapped_def nservos_def)
  moreover have "DirtyMarker wrapped = None" by (simp add: DirtyMarker_def wrapped_def)
  ultimately show ?thesis by (simp add: wrap_pass_def)
qed

text \<open>
  Claim C9, amended. Take a run that starts on an EEPROM without the marker, or with the
  marker and a well-formed stored table, and in which every clock value the sketch
  assigns to \<open>lastchange\<close> (at a repeat of the up or down button, at a press of the
  next-servo or next-position button, at an input change) is different from 0. The run
  completes, and after \<open>setup()\<close> and after every pass of \<open>loop()\<close>: if
  \<open>lastchange\<close> is 0, the table stored in the EEPROM from address 1 equals the table in
  memory.
\<close>

theorem store_in_sync_when_clean:
  assumes "e 0 \<noteq> 0xA5 \<or> table_inv (EEPROM_get 1 e)" and "list_all stamps_nonzero inps"
  shows "\<exists>st. run e inps = Some st \<and> (DirtyMarker st = None \<longrightarrow> stored_table st = spos st)"
proof -
  from setup_inv [OF assms(1)] obtain st0 where
    s: "setup_fn (power_on e) = Some st0" "controller_inv st0"
      "stored_table st0 = spos st0" "lastchange st0 = 0"
    by blast
  from s(3) have "in_sync st0" by (simp add: in_sync_iff)
  from loops_sync [OF s(2) this assms(2)] obtain st where
    "loops inps st0 = Some st" "in_sync st" by blast
  with s(1) have "run e inps = Some st \<and> (DirtyMarker st = None \<longrightarrow> stored_table st = spos st)"
    by (simp add: run_def in_sync_def)
  then show ?thesis by (rule exI)
qed

theorem store_in_sync_when_clean_witness:
  "\<exists>st. run (\<lambda>a. 0xFF) [edit_pass, save_pass] = Some st \<and> DirtyMarker st = None
     \<and> spos st ! 0 ! 0 = 131 \<and> stored_table st = spos st"
proof -
  have h1: "(\<lambda>a. 0xFF :: u8) 0 \<noteq> 0xA5 \<or> table_inv (EEPROM_get 1 (\<lambda>a. 0xFF))"
    by simp
  have h2: "list_all stamps_nonzero [edit_pass, save_pass]"
    by (simp add: stamps_edit_pass stamps_save_pass)
  from store_in_sync_when_clean [OF h1 h2] obtain st where
    a0: "run (\<lambda>a. 0xFF) [edit_pass, save_pass] = Some st
       \<and> (DirtyMarker st = None \<longrightarrow> stored_table st = spos st)" ..
  then have a: "run (\<lambda>a. 0xFF) [edit_pass, save_pass] = Some st"
       "DirtyMarker st = None \<longrightarrow> stored_table st = spos st"
    by simp_all
  from run_edit_save a(1) have b: "lastchange st = 0" "spos st = spos edited"
    by auto
  from b(1) have c: "DirtyMarker st = None" by (simp add: DirtyMarker_def)
  have "spos edited ! 0 ! 0 = 131" by (simp add: edited_def nservos_def)
  with a b(2) c show ?thesis by auto
qed

subsection \<open>Claim C10\<close>

text \<open>
  Claim C10. Of the variables of the sketch, a save changes only \<open>lastchange\<close> (to 0)
  and \<open>activeServo\<close> (to 0); its other effects are the EEPROM write and the servo
  commands. The table is unchanged, and so is \<open>activePos\<close>: it is not reloaded from the
  current position of servo 0. The next iteration of the up or down loop therefore edits
  servo 0 in the row the old \<open>activePos\<close> names.
\<close>

theorem save_frame:
  assumes "table_inv (spos st)" and "save_due now st"
  shows "\<exists>st'. persist now st = Some st'
     \<and> st'\<lparr>eeprom := eeprom st, trace := trace st\<rparr> = st\<lparr>lastchange := 0, activeServo := 0\<rparr>
     \<and> spos st' = spos st \<and> activePos st' = activePos st
     \<and> DirtyMarker st' = None \<and> activeServo st' = 0
     \<and> (activePos st \<le> 1 \<longrightarrow>
          (\<exists>st''. up_step later st' = Some st''
             \<and> spos st'' =
                 (if uint (spos st ! unat (activePos st) ! 0) < MAXPOSN
                  then (spos st)[unat (activePos st) :=
                         (spos st ! unat (activePos st))[0 := spos st ! unat (activePos st) ! 0 + 1]]
                  else spos st))
        \<and> (\<exists>st''. down_step later st' = Some st''
             \<and> spos st'' =
                 (if uint (spos st ! unat (activePos st) ! 0) > MINPOSN
                  then (spos st)[unat (activePos st) :=
                         (spos st ! unat (activePos st))[0 := spos st ! unat (activePos st) ! 0 - 1]]
                  else spos st)))"
proof -
  define st' where "st' = st\<lparr>eeprom := EEPROM_put 1 (spos st) (eeprom st), lastchange := 0,
       activeServo := 0,
       trace := trace st @
         map (\<lambda>i. EaseTo i (spos st ! unat (spos st ! 2 ! i) ! i)) [0..<nservos]\<rparr>"
  have p: "persist now st = Some st'"
    using assms(2) by (simp add: persist_def save_Some [OF assms(1)] st'_def)
  have frame: "st'\<lparr>eeprom := eeprom st, trace := trace st\<rparr> = st\<lparr>lastchange := 0, activeServo := 0\<rparr>"
    by (simp add: st'_def)
  have f: "spos st' = spos st" "activePos st' = activePos st" "DirtyMarker st' = None"
    "activeServo st' = 0"
    by (simp_all add: st'_def DirtyMarker_def)
  have sh: "shape (spos st')" "unat (activeServo st') < nservos"
    using table_inv_shape [OF assms(1)] by (simp_all add: f nservos_def)
  have edit: "(\<exists>st''. up_step later st' = Some st''
             \<and> spos st'' =
                 (if uint (spos st ! unat (activePos st) ! 0) < MAXPOSN
                  then (spos st)[unat (activePos st) :=
                         (spos st ! unat (activePos st))[0 := spos st ! unat (activePos st) ! 0 + 1]]
                  else spos st))
        \<and> (\<exists>st''. down_step later st' = Some st''
             \<and> spos st'' =
                 (if uint (spos st ! unat (activePos st) ! 0) > MINPOSN
                  then (spos st)[unat (activePos st) :=
                         (spos st ! unat (activePos st))[0 := spos st ! unat (activePos st) ! 0 - 1]]
                  else spos st))" if "activePos st \<le> 1"
  proof -
    from that have "unat (activePos st) \<le> unat (1::u8)" by (simp only: word_le_nat_alt)
    then have "unat (activePos st') < 3" by (simp add: f)
    from up_step_Some [OF sh(1) this sh(2)] down_step_Some [OF sh(1) this sh(2)]
    show ?thesis by (simp add: f)
  qed
  from p frame f edit show ?thesis by blast
qed

theorem save_frame_witness:
  "\<exists>st' st''. persist 25001 (factory\<lparr>activePos := 1, lastchange := 5000\<rparr>) = Some st'
     \<and> activeServo st' = 0 \<and> activePos st' = 1 \<and> spos st' ! 2 ! 0 = 0
     \<and> spos st' = spos factory
     \<and> up_step 30000 st' = Some st''
     \<and> spos st'' = [replicate nservos 130, (replicate nservos 50)[0 := 51], replicate nservos 0]"
proof -
  let ?s = "factory\<lparr>activePos := 1, lastchange := 5000\<rparr>"
  have h: "table_inv (spos ?s)" "save_due 25001 ?s" "activePos ?s \<le> 1"
    by (simp_all add: factory_table_inv save_due_def)
  from save_frame [OF h(1,2), of 30000] h(3) obtain st' st'' where
    *: "persist 25001 ?s = Some st'" "spos st' = spos ?s" "activePos st' = activePos ?s"
       "activeServo st' = 0" "up_step 30000 st' = Some st''"
       "spos st'' =
                 (if uint (spos ?s ! unat (activePos ?s) ! 0) < MAXPOSN
                  then (spos ?s)[unat (activePos ?s) :=
                         (spos ?s ! unat (activePos ?s))[0 := spos ?s ! unat (activePos ?s) ! 0 + 1]]
                  else spos ?s)"
    by blast
  have v: "spos ?s ! 1 ! 0 = 50" "spos ?s ! 2 ! 0 = 0"
    by (simp_all add: factory_def nservos_def)
  from *(6) have "spos st'' = [replicate nservos 130, (replicate nservos 50)[0 := 51], replicate nservos 0]"
    by (simp add: factory_def nservos_def MAXPOSN_def)
  with *(1-5) v show ?thesis by simp
qed

end
